theory Spec2Isabelle
  imports Complex_Main
begin

section \<open>The RRT* planner of pykin (pykin/planners/rrt\_star\_planner.py)\<close>

text \<open>
  A shallow embedding of class \<open>RRTStarPlanner\<close>. Conventions:
  \<^item> a joint configuration (a one-dimensional numpy array of floats) is a \<open>real list\<close>;
    float arithmetic is idealised to the reals;
  \<^item> all arrays handled by one planner have the planner's dimension; numpy's treatment of
    operands of different shapes is not modelled (element-wise operations follow \<open>zip\<close>);
  \<^item> an exception is a value \<open>Inl e\<close> of the sum type \<open>error + 'a\<close>;
  \<^item> the random draws of \<open>random_state\<close> are an input of \<open>generate_path\<close>: one draw per
    iteration;
  \<^item> the collision query \<open>collision_free\<close> (forward kinematics followed by the FCL manager's
    check) is a field of the planner: a function from configurations to booleans.
\<close>

subsection \<open>Values, errors, Python indexing\<close>

type_synonym config = "real list"

datatype error =
    NotFoundError
  | CollisionError string string
  | AttributeError
  | TypeError
  | ZeroDivisionError
  | KeyError
  | IndexError
  | ValueError
  | NonTermination  \<comment> \<open>not an exception: the \<open>while\<close> loop of \<open>find_path\<close> does not return\<close>

definition ebind :: "error + 'a \<Rightarrow> ('a \<Rightarrow> error + 'b) \<Rightarrow> error + 'b" where
  "ebind m f = (case m of Inl e \<Rightarrow> Inl e | Inr x \<Rightarrow> f x)"

text \<open>\<open>xs[i]\<close> for a non-negative index.\<close>

definition py_get :: "'a list \<Rightarrow> nat \<Rightarrow> error + 'a" where
  "py_get xs i = (if i < length xs then Inr (xs ! i) else Inl IndexError)"

text \<open>The position that Python's \<open>xs[i]\<close> denotes for an integer index: a negative index
  counts from the end.\<close>

definition py_pos :: "nat \<Rightarrow> int \<Rightarrow> error + nat" where
  "py_pos n i =
     (let j = (if i < 0 then int n + i else i)
      in if 0 \<le> j \<and> j < int n then Inr (nat j) else Inl IndexError)"

subsection \<open>Vectors\<close>

text \<open>\<open>np.linalg.norm(v)\<close>, \<open>pointB - pointA\<close>, and \<open>distance\<close>.\<close>

definition vnorm :: "config \<Rightarrow> real" where
  "vnorm v = sqrt (sum_list (map (\<lambda>x. x\<^sup>2) v))"

definition vsub :: "config \<Rightarrow> config \<Rightarrow> config" where
  "vsub a b = map2 (\<lambda>x y. x - y) a b"

definition vadd :: "config \<Rightarrow> config \<Rightarrow> config" where
  "vadd a b = map2 (\<lambda>x y. x + y) a b"

definition distance :: "config \<Rightarrow> config \<Rightarrow> real" where
  "distance pointA pointB = vnorm (vsub pointB pointA)"

subsection \<open>The tree and the planner\<close>

text \<open>
  Modelled from the spec: class \<open>Tree\<close> (pykin/planners/tree.py) is not among the sources.
  The planner uses it as two growing lists: \<open>vertices\<close> (configurations, the index of a
  vertex is its insertion order) and \<open>edges\<close> (two-element lists \<open>[parent, child]\<close>);
  \<open>add_vertex\<close> and \<open>add_edge\<close> append to them.
\<close>

record Tree =
  vertices :: "config list"
  edges :: "(nat \<times> nat) list"

definition add_vertex :: "Tree \<Rightarrow> config \<Rightarrow> Tree" where
  "add_vertex t q = t\<lparr>vertices := vertices t @ [q]\<rparr>"

definition add_edge :: "Tree \<Rightarrow> nat \<times> nat \<Rightarrow> Tree" where
  "add_edge t e = t\<lparr>edges := edges t @ [e]\<rparr>"

record planner =
  cur_q :: config
  goal_q :: config
  delta_dis :: real
  epsilon :: real
  max_iter :: int
  gamma_RRTs :: real
  dimension :: nat
  q_limits_lower :: config
  q_limits_upper :: config
  collision_free :: "config \<Rightarrow> bool"

text \<open>What \<open>generate_path\<close> mutates: \<open>self.T\<close>, \<open>self.cost\<close> and its local \<open>path\<close>.\<close>

record pstate =
  tree :: Tree
  cost :: "nat \<rightharpoonup> real"
  path :: "config list option"

text \<open>One random draw: the value of \<open>np.random.random()\<close> and the values that
  \<open>np.random.uniform(q_min, q_max)\<close> returns for the joints.\<close>

type_synonym draw = "real \<times> config"

definition random_state :: "planner \<Rightarrow> draw \<Rightarrow> config" where
  "random_state P d = (if fst d > epsilon P then snd d else goal_q P)"

definition q_in_limits :: "planner \<Rightarrow> config \<Rightarrow> bool" where
  "q_in_limits P q_in =
     (list_all (\<lambda>(q, l). q \<ge> l) (zip q_in (q_limits_lower P)) \<and>
      list_all (\<lambda>(q, u). q \<le> u) (zip q_in (q_limits_upper P)))"

text \<open>\<open>np.argmin\<close>: the first index of a minimal element; it raises on an empty sequence.\<close>

fun argmin_loop :: "real list \<Rightarrow> nat \<Rightarrow> nat \<Rightarrow> real \<Rightarrow> nat" where
  "argmin_loop [] i best_i best = best_i"
| "argmin_loop (y # ys) i best_i best =
     (if y < best then argmin_loop ys (Suc i) i y else argmin_loop ys (Suc i) best_i best)"

definition np_argmin :: "real list \<Rightarrow> error + nat" where
  "np_argmin ds = (case ds of [] \<Rightarrow> Inl ValueError | d # ds' \<Rightarrow> Inr (argmin_loop ds' 1 0 d))"

definition nearest_neighbor :: "planner \<Rightarrow> config \<Rightarrow> Tree \<Rightarrow> error + (config \<times> nat)" where
  "nearest_neighbor P random_q t =
     (let distances = map (\<lambda>vertex. distance random_q vertex) (vertices t)
      in ebind (np_argmin distances) (\<lambda>nearest_idx.
         ebind (py_get (vertices t) nearest_idx) (\<lambda>nearest_point.
         Inr (nearest_point, nearest_idx))))"

definition new_state :: "planner \<Rightarrow> config \<Rightarrow> config \<Rightarrow> config" where
  "new_state P nearest_q random_q =
     (if nearest_q = random_q then nearest_q
      else
        let vector = vsub random_q nearest_q;
            dist = distance random_q nearest_q;
            step = min (delta_dis P) dist;
            unit_vector = map (\<lambda>x. x / dist) vector
        in vadd nearest_q (map (\<lambda>x. x * step) unit_vector))"

text \<open>The \<open>for idx, dist in enumerate(dist_list)\<close> loop of \<open>find_near_neighbor\<close>.\<close>

fun near_loop :: "planner \<Rightarrow> config \<Rightarrow> real \<Rightarrow> nat \<Rightarrow> real list \<Rightarrow> nat list \<Rightarrow> nat list" where
  "near_loop P q search_radius idx [] near_indexes = near_indexes"
| "near_loop P q search_radius idx (dst # rest) near_indexes =
     near_loop P q search_radius (Suc idx) rest
       (if dst \<le> search_radius \<and> collision_free P q then near_indexes @ [idx]
        else near_indexes)"

definition find_near_neighbor :: "planner \<Rightarrow> Tree \<Rightarrow> config \<Rightarrow> error + nat list" where
  "find_near_neighbor P t q =
     (let card_V = length (vertices t) + 1
      in if dimension P = 0 then Inl ZeroDivisionError
         else
           let r = gamma_RRTs P * ((ln (real card_V) / real card_V) powr (1 / real (dimension P)));
               search_radius = min r (delta_dis P);
               dist_list = map (\<lambda>vertex. distance vertex q) (vertices t)
           in Inr (near_loop P q search_radius 0 dist_list []))"

definition get_new_cost :: "pstate \<Rightarrow> nat \<Rightarrow> config \<Rightarrow> config \<Rightarrow> error + real" where
  "get_new_cost st idx A B =
     (case cost st idx of None \<Rightarrow> Inl KeyError | Some c \<Rightarrow> Inr (c + distance A B))"

fun get_minimum_cost ::
  "planner \<Rightarrow> pstate \<Rightarrow> nat list \<Rightarrow> config \<Rightarrow> real \<Rightarrow> nat \<Rightarrow> error + (real \<times> nat)" where
  "get_minimum_cost P st [] new_q min_cost nearest_idx = Inr (min_cost, nearest_idx)"
| "get_minimum_cost P st (i # rest) new_q min_cost nearest_idx =
     ebind (py_get (vertices (tree st)) i) (\<lambda>v.
     ebind (get_new_cost st i new_q v) (\<lambda>new_cost.
       if new_cost < min_cost \<and> collision_free P new_q
       then get_minimum_cost P st rest new_q new_cost i
       else get_minimum_cost P st rest new_q min_cost nearest_idx))"

text \<open>One pass of the body of the \<open>for\<close> loop of \<open>rewire\<close>. The assignment
  \<open>self.T.edges[i-1][0] = new_idx\<close> indexes the edge list with \<open>i - 1\<close>, which for \<open>i = 0\<close>
  is Python's \<open>-1\<close>, the last edge.\<close>

definition rewire_step :: "planner \<Rightarrow> config \<Rightarrow> nat \<Rightarrow> pstate \<Rightarrow> nat \<Rightarrow> error + pstate" where
  "rewire_step P new_q new_idx st i =
     ebind (py_get (vertices (tree st)) i) (\<lambda>v.
       let no_collision = collision_free P v in
       ebind (get_new_cost st new_idx new_q v) (\<lambda>new_cost.
         if \<not> no_collision then Inr st
         else (case cost st i of
                 None \<Rightarrow> Inl KeyError
               | Some c \<Rightarrow>
                   if new_cost < c
                   then ebind (py_pos (length (edges (tree st))) (int i - 1)) (\<lambda>j.
                          Inr (st\<lparr>cost := (cost st)(i \<mapsto> new_cost),
                                  tree := (tree st)\<lparr>edges :=
                                    (edges (tree st))[j := (new_idx, snd (edges (tree st) ! j))]\<rparr>\<rparr>))
                   else Inr st)))"

fun rewire :: "planner \<Rightarrow> pstate \<Rightarrow> nat list \<Rightarrow> config \<Rightarrow> nat \<Rightarrow> error + pstate" where
  "rewire P st [] new_q new_idx = Inr st"
| "rewire P st (i # rest) new_q new_idx =
     ebind (rewire_step P new_q new_idx st i) (\<lambda>st'. rewire P st' rest new_q new_idx)"

definition reach_to_goal :: "planner \<Rightarrow> config \<Rightarrow> bool" where
  "reach_to_goal P point = (distance point (goal_q P) \<le> 0.2)"

text \<open>The \<open>while goal_idx != 0\<close> loop of \<open>find_path\<close>; \<open>None\<close> stands for a loop that never
  ends.\<close>

partial_function (option) find_path_loop ::
  "Tree \<Rightarrow> nat \<Rightarrow> config list \<Rightarrow> (error + config list) option" where
  "find_path_loop t goal_idx pth =
     (if goal_idx = 0 then Some (Inr pth)
      else (case py_get (vertices t) goal_idx of
              Inl e \<Rightarrow> Some (Inl e)
            | Inr v \<Rightarrow>
               (case py_get (edges t) (goal_idx - 1) of
                  Inl e \<Rightarrow> Some (Inl e)
                | Inr ed \<Rightarrow> find_path_loop t (fst ed) (pth @ [v]))))"

definition find_path :: "planner \<Rightarrow> Tree \<Rightarrow> error + config list" where
  "find_path P t =
     ebind (py_pos (length (edges t)) (- 1)) (\<lambda>j.
       let goal_idx = snd (edges t ! j) in
       case find_path_loop t goal_idx [goal_q P] of
         None \<Rightarrow> Inl NonTermination
       | Some r \<Rightarrow> ebind r (\<lambda>pth. Inr (rev (pth @ [cur_q P]))))"

text \<open>The body of the \<open>for k in range(self.max_iter)\<close> loop of \<open>generate_path\<close> (the progress
  message is not modelled).\<close>

definition iteration :: "planner \<Rightarrow> pstate \<Rightarrow> draw \<Rightarrow> error + pstate" where
  "iteration P st d =
     (let rand_q = random_state P d in
      ebind (nearest_neighbor P rand_q (tree st)) (\<lambda>(nearest_q, nearest_idx).
        let new_q = new_state P nearest_q rand_q in
        if collision_free P new_q \<and> q_in_limits P new_q then
          ebind (find_near_neighbor P (tree st) new_q) (\<lambda>neighbor_indexes.
          ebind (get_new_cost st nearest_idx nearest_q new_q) (\<lambda>min_cost0.
          ebind (get_minimum_cost P st neighbor_indexes new_q min_cost0 nearest_idx)
            (\<lambda>(min_cost, nearest_idx').
              let t1 = add_vertex (tree st) new_q;
                  new_idx = length (vertices t1) - 1;
                  c1 = (cost st)(new_idx \<mapsto> min_cost);
                  t2 = add_edge t1 (nearest_idx', new_idx);
                  st2 = st\<lparr>tree := t2, cost := c1\<rparr>
              in ebind (rewire P st2 neighbor_indexes new_q new_idx) (\<lambda>st3.
                   if reach_to_goal P new_q
                   then ebind (find_path P (tree st3)) (\<lambda>pth. Inr (st3\<lparr>path := Some pth\<rparr>))
                   else Inr st3))))
        else Inr st))"

definition init_state :: "planner \<Rightarrow> pstate" where
  "init_state P =
     \<lparr>tree = add_vertex \<lparr>vertices = [], edges = []\<rparr> (cur_q P),
      cost = [0 \<mapsto> 0],
      path = None\<rparr>"

fun run_iters :: "planner \<Rightarrow> (nat \<Rightarrow> draw) \<Rightarrow> nat list \<Rightarrow> pstate \<Rightarrow> error + pstate" where
  "run_iters P rnd [] st = Inr st"
| "run_iters P rnd (k # ks) st = ebind (iteration P st (rnd k)) (run_iters P rnd ks)"

text \<open>\<open>generate_path_state\<close> is the planner's state when \<open>generate_path\<close> returns;
  \<open>generate_path\<close> is its return value, \<open>None\<close> for Python's \<open>None\<close>.\<close>

definition generate_path_state :: "planner \<Rightarrow> (nat \<Rightarrow> draw) \<Rightarrow> error + pstate" where
  "generate_path_state P rnd = run_iters P rnd [0..<nat (max_iter P)] (init_state P)"

definition generate_path :: "planner \<Rightarrow> (nat \<Rightarrow> draw) \<Rightarrow> error + config list option" where
  "generate_path P rnd = ebind (generate_path_state P rnd) (\<lambda>st. Inr (path st))"

subsection \<open>Setting up start and goal\<close>

text \<open>
  What a caller may pass for \<open>current_q\<close> and \<open>goal_q\<close>: \<open>None\<close>, a plain sequence, or a
  numpy array of floats. \<open>NdObject\<close> is the zero-dimensional object array that
  \<open>np.array(None)\<close> builds.
\<close>

datatype pyval = PyNone | PyList config | NdArray config | NdObject

definition is_ndarray :: "pyval \<Rightarrow> bool" where
  "is_ndarray v = (case v of NdArray xs \<Rightarrow> True | NdObject \<Rightarrow> True | PyNone \<Rightarrow> False
                   | PyList xs \<Rightarrow> False)"

definition np_array :: "pyval \<Rightarrow> pyval" where
  "np_array v = (case v of PyNone \<Rightarrow> NdObject | PyList xs \<Rightarrow> NdArray xs
                 | NdArray xs \<Rightarrow> NdArray xs | NdObject \<Rightarrow> NdObject)"

text \<open>The value of \<open>v.all()\<close>: a boolean for an array of floats (every element is non-zero),
  the object \<open>None\<close> for \<open>np.array(None)\<close> (before numpy 2.0 the reduction of an object
  array returns the object; from 2.0 on it returns the boolean \<open>False\<close>: as a condition both
  are false, and the two differ only for a goal that is itself \<open>np.array(None)\<close>); neither
  \<open>None\<close> nor a list has the attribute.\<close>

datatype allres = AllBool bool | AllNone

definition np_all :: "pyval \<Rightarrow> error + allres" where
  "np_all v = (case v of
                 NdArray xs \<Rightarrow> Inr (AllBool (list_all (\<lambda>x. x \<noteq> 0) xs))
               | NdObject \<Rightarrow> Inr AllNone
               | PyNone \<Rightarrow> Inl AttributeError
               | PyList xs \<Rightarrow> Inl AttributeError)"

definition truthy :: "allres \<Rightarrow> bool" where
  "truthy a = (case a of AllBool b \<Rightarrow> b | AllNone \<Rightarrow> False)"

text \<open>\<open>_check_q_data\<close>: the condition is \<open>current_q.all() or (goal_q.all() is None)\<close>; \<open>or\<close>
  evaluates its second operand only when the first is false.\<close>

definition check_q_data :: "pyval \<Rightarrow> pyval \<Rightarrow> error + bool" where
  "check_q_data current_q goal_q' =
     ebind (np_all current_q) (\<lambda>a.
       if truthy a then Inl NotFoundError
       else ebind (np_all goal_q') (\<lambda>g.
              if g = AllNone then Inl NotFoundError else Inr True))"

definition py_len :: "pyval \<Rightarrow> error + nat" where
  "py_len v = (case v of NdArray xs \<Rightarrow> Inr (length xs) | PyList xs \<Rightarrow> Inr (length xs)
               | NdObject \<Rightarrow> Inl TypeError | PyNone \<Rightarrow> Inl TypeError)"

text \<open>\<open>sub in s\<close> for strings.\<close>

fun starts_with :: "string \<Rightarrow> string \<Rightarrow> bool" where
  "starts_with [] s = True"
| "starts_with (a # as) [] = False"
| "starts_with (a # as) (c # cs) = (a = c \<and> starts_with as cs)"

fun str_in :: "string \<Rightarrow> string \<Rightarrow> bool" where
  "str_in sub [] = (sub = [])"
| "str_in sub (c # cs) = (starts_with sub (c # cs) \<or> str_in sub cs)"

text \<open>\<open>_check_init_collision\<close>, on the answer \<open>(is_collision, obj_names)\<close> of the collision
  manager's \<open>collision_check(return_names=True)\<close>; the names are taken in the order in which
  the \<open>for\<close> loop meets them.\<close>

fun check_pairs :: "(string \<times> string) list \<Rightarrow> error + unit" where
  "check_pairs [] = Inr ()"
| "check_pairs ((name1, name2) # rest) =
     (if \<not> (str_in ''obstacle'' name1 \<and> str_in ''obstacle'' name2)
      then Inl (CollisionError name1 name2)
      else check_pairs rest)"

definition check_init_collision :: "bool \<times> (string \<times> string) list \<Rightarrow> error + unit" where
  "check_init_collision res =
     (let is_collision = fst res; obj_names = snd res
      in if is_collision then check_pairs obj_names else Inr ())"

text \<open>
  Modelled from the spec: the robot and the collision manager are external. What
  \<open>setup_start_goal_joint\<close> takes from them is gathered in a record: the answer of the
  collision check made once robot and obstacles are registered, the joint limit vectors
  (robot-global for no arm, per arm otherwise), and the collision query that the manager so
  set up answers during planning.
\<close>

record setup_env =
  init_report :: "bool \<times> (string \<times> string) list"
  limits_lower :: "string option \<Rightarrow> config"
  limits_upper :: "string option \<Rightarrow> config"
  free_query :: "config \<Rightarrow> bool"

text \<open>\<open>setup_start_goal_joint\<close>. The second conversion assigns \<open>np.array(goal_q)\<close> to
  \<open>current_q\<close>, as the source does. The last case distinction has one reachable branch:
  \<open>len\<close> and \<open>all\<close> have succeeded, so both values are arrays of floats.\<close>

definition setup_start_goal_joint ::
  "planner \<Rightarrow> pyval \<Rightarrow> pyval \<Rightarrow> string option \<Rightarrow> setup_env \<Rightarrow> error + planner" where
  "setup_start_goal_joint P current_q goal_q' arm env =
     (let current_q1 = (if \<not> is_ndarray current_q then np_array current_q else current_q);
          current_q2 = (if \<not> is_ndarray goal_q' then np_array goal_q' else current_q1)
      in ebind (check_q_data current_q2 goal_q') (\<lambda>ok.
         ebind (py_len current_q2) (\<lambda>dim.
         ebind (check_init_collision (init_report env)) (\<lambda>u.
           case (current_q2, goal_q') of
             (NdArray c, NdArray g) \<Rightarrow>
               Inr (P\<lparr>cur_q := c, goal_q := g, dimension := dim,
                      q_limits_lower := limits_lower env arm,
                      q_limits_upper := limits_upper env arm,
                      collision_free := free_query env\<rparr>)
           | other \<Rightarrow> Inl TypeError))))"

subsection \<open>Properties of trees and states\<close>

text \<open>The parent of a vertex, read as \<open>find_path\<close> and \<open>rewire\<close> read it: the first component
  of the edge at position \<open>v - 1\<close>. Vertex \<open>0\<close> has none.\<close>

definition parent :: "Tree \<Rightarrow> nat \<Rightarrow> nat option" where
  "parent t v =
     (if v = 0 \<or> length (edges t) < v then None else Some (fst (edges t ! (v - 1))))"

text \<open>\<open>ancestor t k v\<close> follows \<open>k\<close> parent links from \<open>v\<close>.\<close>

fun ancestor :: "Tree \<Rightarrow> nat \<Rightarrow> nat \<Rightarrow> nat option" where
  "ancestor t 0 v = Some v"
| "ancestor t (Suc k) v = (case parent t v of None \<Rightarrow> None | Some p \<Rightarrow> ancestor t k p)"

text \<open>The vertices met on the first \<open>k\<close> links from \<open>v\<close>, \<open>v\<close> first.\<close>

fun walk :: "Tree \<Rightarrow> nat \<Rightarrow> nat \<Rightarrow> nat list" where
  "walk t 0 v = []"
| "walk t (Suc k) v = v # (case parent t v of None \<Rightarrow> [] | Some p \<Rightarrow> walk t k p)"

text \<open>A valid rooted tree: one edge per vertex other than vertex \<open>0\<close>, the edge at position
  \<open>j\<close> is the parent link of vertex \<open>j + 1\<close> and points to an existing vertex, no edge has
  vertex \<open>0\<close> as its child, and from every vertex the parent links lead to vertex \<open>0\<close> in at
  most as many steps as there are vertices.\<close>

definition tree_valid :: "Tree \<Rightarrow> bool" where
  "tree_valid t =
     (length (edges t) + 1 = length (vertices t) \<and>
      (\<forall>j<length (edges t). snd (edges t ! j) = Suc j \<and> fst (edges t ! j) < length (vertices t)) \<and>
      (\<forall>e\<in>set (edges t). snd e \<noteq> 0) \<and>
      (\<forall>v<length (vertices t). \<exists>k\<le>length (vertices t). ancestor t k v = Some 0))"

text \<open>The recorded cost of a vertex.\<close>

definition cst :: "pstate \<Rightarrow> nat \<Rightarrow> real" where
  "cst st v = the (cost st v)"

text \<open>The shape of the tree, without the bound on the number of steps.\<close>

definition shape :: "Tree \<Rightarrow> bool" where
  "shape t =
     (length (edges t) + 1 = length (vertices t) \<and>
      (\<forall>j<length (edges t). snd (edges t ! j) = Suc j \<and> fst (edges t ! j) < length (vertices t)))"

definition reach :: "Tree \<Rightarrow> bool" where
  "reach t = (\<forall>v<length (vertices t). \<exists>k. ancestor t k v = Some 0)"

text \<open>Costs are recorded for exactly the vertices, the root costs nothing, and along every
  edge the child's recorded cost is at least the parent's plus the length of the edge.\<close>

definition cost_inv :: "pstate \<Rightarrow> bool" where
  "cost_inv st =
     (dom (cost st) = {..<length (vertices (tree st))} \<and>
      cost st 0 = Some 0 \<and>
      (\<forall>j<length (edges (tree st)).
         cst st (fst (edges (tree st) ! j)) +
           distance (vertices (tree st) ! fst (edges (tree st) ! j)) (vertices (tree st) ! Suc j)
         \<le> cst st (Suc j)))"

text \<open>A recorded path starts at the start configuration, ends at the goal configuration, and
  its last but one element is a vertex of the tree, other than vertex \<open>0\<close>, that passes the
  goal check.\<close>

definition path_inv :: "planner \<Rightarrow> pstate \<Rightarrow> bool" where
  "path_inv P st =
     (case path st of
        None \<Rightarrow> True
      | Some pth \<Rightarrow>
          3 \<le> length pth \<and> hd pth = cur_q P \<and> last pth = goal_q P \<and>
          set (butlast pth) \<subseteq> set (vertices (tree st)) \<and>
          (\<exists>i. 0 < i \<and> i < length (vertices (tree st)) \<and>
               last (butlast pth) = vertices (tree st) ! i \<and>
               reach_to_goal P (vertices (tree st) ! i)))"

definition tree_inv :: "planner \<Rightarrow> pstate \<Rightarrow> bool" where
  "tree_inv P st =
     (shape (tree st) \<and> reach (tree st) \<and> cost_inv st \<and> path_inv P st \<and>
      vertices (tree st) ! 0 = cur_q P)"

text \<open>The neighbor set in the words of the specification: the radius
  \<open>min(gamma * (ln(n+1)/(n+1))^(1/DOF), delta)\<close> for \<open>n\<close> vertices, and the indices, in
  increasing order, of the vertices within that radius of the new configuration for which the
  new configuration is collision-free.\<close>

definition spec_radius :: "planner \<Rightarrow> nat \<Rightarrow> real" where
  "spec_radius P n =
     min (gamma_RRTs P * (ln (real n + 1) / (real n + 1)) powr (1 / real (dimension P)))
         (delta_dis P)"

definition spec_neighbors :: "planner \<Rightarrow> Tree \<Rightarrow> config \<Rightarrow> nat list" where
  "spec_neighbors P t q =
     filter (\<lambda>i. distance (vertices t ! i) q \<le> spec_radius P (length (vertices t)) \<and>
                 collision_free P q)
            [0..<length (vertices t)]"

text \<open>The length of the way from \<open>v\<close> along its first \<open>k\<close> parent links.\<close>

fun path_length :: "Tree \<Rightarrow> nat \<Rightarrow> nat \<Rightarrow> real" where
  "path_length t 0 v = 0"
| "path_length t (Suc k) v =
     (case parent t v of
        None \<Rightarrow> 0
      | Some p \<Rightarrow> distance (vertices t ! p) (vertices t ! v) + path_length t k p)"

text \<open>A colliding pair that makes \<open>_check_init_collision\<close> raise: not both names contain
  \<open>obstacle\<close>.\<close>

definition offending :: "string \<times> string \<Rightarrow> bool" where
  "offending pr = (\<not> (str_in ''obstacle'' (fst pr) \<and> str_in ''obstacle'' (snd pr)))"

subsection \<open>Concrete planners\<close>

text \<open>A planner for one joint, with no obstacle, whose neighbor radius is \<open>0\<close>.\<close>

definition planner_A :: planner where
  "planner_A =
     \<lparr>cur_q = [0], goal_q = [1], delta_dis = 1, epsilon = 1 / 10, max_iter = 1,
      gamma_RRTs = 0, dimension = 1, q_limits_lower = [- 10], q_limits_upper = [10],
      collision_free = (\<lambda>q. True)\<rparr>"

text \<open>A planner for one joint whose neighbor radius is \<open>ln (n + 1) / (n + 1)\<close>, and four
  draws, none of them the goal.\<close>

definition planner_B :: planner where
  "planner_B =
     \<lparr>cur_q = [0], goal_q = [100], delta_dis = 10, epsilon = 1 / 10, max_iter = 4,
      gamma_RRTs = 1, dimension = 1, q_limits_lower = [- 200], q_limits_upper = [200],
      collision_free = (\<lambda>q. True)\<rparr>"

definition draws_B :: "nat \<Rightarrow> draw" where
  "draws_B k =
     (1 / 2, [if k = 0 then 23 / 20 else if k = 1 then 3 / 5 else if k = 2 then 7 / 10
              else 3 / 10])"

text \<open>The states of the run of \<open>planner_B\<close> on these draws after three and after four
  iterations.\<close>

definition state_B3 :: pstate where
  "state_B3 =
     \<lparr>tree = \<lparr>vertices = [[0], [23 / 20], [3 / 5], [7 / 10]],
              edges = [(0, 1), (1, 2), (2, 3)]\<rparr>,
      cost = [0 \<mapsto> 0, 1 \<mapsto> 23 / 20, 2 \<mapsto> 17 / 10, 3 \<mapsto> 9 / 5], path = None\<rparr>"

definition state_B4 :: pstate where
  "state_B4 =
     \<lparr>tree = \<lparr>vertices = [[0], [23 / 20], [3 / 5], [7 / 10], [3 / 10]],
              edges = [(0, 1), (4, 2), (2, 3), (0, 4)]\<rparr>,
      cost = [0 \<mapsto> 0, 1 \<mapsto> 23 / 20, 2 \<mapsto> 3 / 5, 3 \<mapsto> 9 / 5, 4 \<mapsto> 3 / 10],
      path = None\<rparr>"

text \<open>A robot with one joint and no collision at its initial pose; the same robot with two
  colliding pairs reported, the first between two obstacles.\<close>

definition env_free :: setup_env where
  "env_free =
     \<lparr>init_report = (False, []), limits_lower = (\<lambda>arm. [- 10]), limits_upper = (\<lambda>arm. [10]),
      free_query = (\<lambda>q. True)\<rparr>"


section \<open>Basic facts\<close>


lemma ebind_Inr [simp]: "ebind (Inr x) f = f x"
  by (simp add: ebind_def)

lemma ebind_Inl [simp]: "ebind (Inl e) f = Inl e"
  by (simp add: ebind_def)

lemma ebind_eq_Inr: "ebind m f = Inr y \<longleftrightarrow> (\<exists>x. m = Inr x \<and> f x = Inr y)"
  by (cases m) simp_all

lemma ebind_eq_Inl: "ebind m f = Inl e \<longleftrightarrow> (m = Inl e \<or> (\<exists>x. m = Inr x \<and> f x = Inl e))"
  by (cases m) simp_all

lemma py_get_in_range [simp]: "i < length xs \<Longrightarrow> py_get xs i = Inr (xs ! i)"
  by (simp add: py_get_def)

lemma argmin_loop_bound: "best_i < i \<Longrightarrow> argmin_loop ys i best_i best < i + length ys"
proof (induction ys arbitrary: i best_i best)
  case Nil
  then show ?case by simp
next
  case (Cons y ys)
  have a: "argmin_loop ys (Suc i) i y < Suc i + length ys"
    by (rule Cons.IH) simp
  have b: "argmin_loop ys (Suc i) best_i best < Suc i + length ys"
    by (rule Cons.IH) (use Cons.prems in simp)
  from a b show ?case by simp
qed

lemma np_argmin_bound: "ds \<noteq> [] \<Longrightarrow> \<exists>i<length ds. np_argmin ds = Inr i"
proof (cases ds)
  case Nil
  then show "ds \<noteq> [] \<Longrightarrow> ?thesis" by simp
next
  case (Cons d ds')
  have "argmin_loop ds' 1 0 d < 1 + length ds'"
    by (rule argmin_loop_bound) simp
  with Cons show ?thesis by (simp add: np_argmin_def)
qed

lemma nearest_neighbor_ok:
  assumes "vertices t \<noteq> []"
  shows "\<exists>ni<length (vertices t). nearest_neighbor P q t = Inr (vertices t ! ni, ni)"
proof -
  let ?ds = "map (\<lambda>vertex. distance q vertex) (vertices t)"
  from assms have "?ds \<noteq> []" by simp
  then obtain i where "i < length ?ds" "np_argmin ?ds = Inr i"
    using np_argmin_bound by blast
  then show ?thesis by (auto simp: nearest_neighbor_def)
qed

lemma near_loop_eq:
  "near_loop P q r idx ds acc =
     acc @ map (\<lambda>j. idx + j) (filter (\<lambda>j. ds ! j \<le> r \<and> collision_free P q) [0..<length ds])"
proof (induction ds arbitrary: idx acc)
  case Nil
  show ?case by simp
next
  case (Cons d ds)
  have upt: "[0..<length (d # ds)] = 0 # map Suc [0..<length ds]"
    by (simp add: upt_conv_Cons map_Suc_upt del: upt_Suc)
  show ?case
    unfolding upt by (simp add: Cons.IH filter_map o_def)
qed

subsection \<open>Distances\<close>

lemma sum_sq_nonneg [simp]: "0 \<le> sum_list (map (\<lambda>x. x\<^sup>2) (v :: real list))"
  by (rule sum_list_nonneg) auto

lemma vnorm_nonneg [simp]: "0 \<le> vnorm v"
  by (simp add: vnorm_def)

lemma distance_nonneg [simp]: "0 \<le> distance a b"
  by (simp add: distance_def)

lemma sq_vsub_commute:
  "sum_list (map (\<lambda>x. x\<^sup>2) (vsub a b)) = sum_list (map (\<lambda>x. x\<^sup>2) (vsub b a))"
proof (induction a arbitrary: b)
  case Nil
  show ?case by (simp add: vsub_def)
next
  case (Cons x a)
  show ?case
  proof (cases b)
    case Nil
    then show ?thesis by (simp add: vsub_def)
  next
    case (Cons y b')
    with Cons.IH [of b'] show ?thesis
      by (simp add: vsub_def power2_commute)
  qed
qed

lemma distance_commute: "distance a b = distance b a"
  by (simp add: distance_def vnorm_def sq_vsub_commute)

lemma distance_1d [simp]: "distance [a] [b] = \<bar>b - a\<bar>"
  by (simp add: distance_def vnorm_def vsub_def)

subsection \<open>Parent links\<close>

lemma parent_0 [simp]: "parent t 0 = None"
  by (simp add: parent_def)

lemma parent_SomeD:
  "shape t \<Longrightarrow> parent t v = Some p \<Longrightarrow>
     0 < v \<and> v < length (vertices t) \<and> p < length (vertices t) \<and> edges t ! (v - 1) = (p, v)"
proof -
  assume sh: "shape t" and pa: "parent t v = Some p"
  from pa have v: "0 < v" "v \<le> length (edges t)" and p: "p = fst (edges t ! (v - 1))"
    by (auto simp: parent_def split: if_splits)
  from v have j: "v - 1 < length (edges t)" by simp
  with sh have "snd (edges t ! (v - 1)) = Suc (v - 1)" "fst (edges t ! (v - 1)) < length (vertices t)"
    unfolding shape_def by blast+
  moreover from sh v have "v < length (vertices t)" by (simp add: shape_def)
  ultimately show ?thesis using v p by (simp add: prod_eq_iff)
qed

lemma parent_Some:
  "shape t \<Longrightarrow> 0 < v \<Longrightarrow> v < length (vertices t) \<Longrightarrow> \<exists>p. parent t v = Some p"
  by (auto simp: shape_def parent_def)

lemma ancestor_0: "ancestor t k 0 = Some a \<Longrightarrow> k = 0 \<and> a = 0"
  by (cases k) simp_all

lemma ancestor_lt:
  "shape t \<Longrightarrow> v < length (vertices t) \<Longrightarrow> ancestor t k v = Some a \<Longrightarrow> a < length (vertices t)"
proof (induction k arbitrary: v)
  case 0
  then show ?case by simp
next
  case (Suc k)
  then show ?case
    by (auto split: option.splits dest: parent_SomeD)
qed

lemma ancestor_add:
  "ancestor t (j + k) v = (case ancestor t j v of None \<Rightarrow> None | Some a \<Rightarrow> ancestor t k a)"
  by (induction j arbitrary: v) (auto split: option.splits)

subsection \<open>Costs along parent links\<close>

lemma parent_cost_le:
  assumes "shape (tree st)" "cost_inv st" "parent (tree st) v = Some p"
  shows "cst st p + distance (vertices (tree st) ! p) (vertices (tree st) ! v) \<le> cst st v"
proof -
  from parent_SomeD [OF assms(1,3)]
  have v: "0 < v" "v < length (vertices (tree st))" and e: "edges (tree st) ! (v - 1) = (p, v)"
    by auto
  from assms(1) v have j: "v - 1 < length (edges (tree st))"
    by (auto simp: shape_def)
  from assms(2) j have
    "cst st (fst (edges (tree st) ! (v - 1))) +
       distance (vertices (tree st) ! fst (edges (tree st) ! (v - 1)))
                (vertices (tree st) ! Suc (v - 1))
     \<le> cst st (Suc (v - 1))"
    unfolding cost_inv_def by blast
  with e v show ?thesis by simp
qed

lemma ancestor_cost_le:
  "shape (tree st) \<Longrightarrow> cost_inv st \<Longrightarrow> ancestor (tree st) k v = Some a \<Longrightarrow> cst st a \<le> cst st v"
proof (induction k arbitrary: v)
  case 0
  then show ?case by simp
next
  case (Suc k)
  from Suc.prems(3) obtain p where p: "parent (tree st) v = Some p" "ancestor (tree st) k p = Some a"
    by (auto split: option.splits)
  have "cst st a \<le> cst st p" using Suc.IH [OF Suc.prems(1,2) p(2)] .
  moreover have "cst st p \<le> cst st v"
    using parent_cost_le [OF Suc.prems(1,2) p(1)] distance_nonneg
    by (smt (verit))
  ultimately show ?case by simp
qed

lemma cst_0: "cost_inv st \<Longrightarrow> cst st 0 = 0"
  by (simp add: cost_inv_def cst_def)

lemma cost_nonneg:
  assumes "shape (tree st)" "reach (tree st)" "cost_inv st" "v < length (vertices (tree st))"
  shows "0 \<le> cst st v"
proof -
  from assms(2,4) obtain k where "ancestor (tree st) k v = Some 0"
    unfolding reach_def by blast
  from ancestor_cost_le [OF assms(1,3) this] cst_0 [OF assms(3)] show ?thesis by simp
qed

lemma cost_Some:
  "cost_inv st \<Longrightarrow> v < length (vertices (tree st)) \<Longrightarrow> cost st v = Some (cst st v)"
  by (auto simp: cost_inv_def cst_def dom_def set_eq_iff)

subsection \<open>Rewiring one vertex\<close>

text \<open>The state after vertex \<open>i\<close> has been given the parent \<open>new_idx\<close> and the cost \<open>c\<close>.\<close>

lemma parent_rewired:
  assumes "0 < i" "i \<le> length (edges t)"
  shows "parent (t\<lparr>edges := (edges t)[i - 1 := (new_idx, i)]\<rparr>) v =
         (if v = i then Some new_idx else parent t v)"
proof (cases "v = i")
  case True
  with assms show ?thesis by (simp add: parent_def)
next
  case False
  show ?thesis
  proof (cases "v = 0 \<or> length (edges t) < v")
    case True
    with False show ?thesis by (auto simp: parent_def)
  next
    case False
    with \<open>v \<noteq> i\<close> assms have "v - 1 \<noteq> i - 1" by auto
    with False \<open>v \<noteq> i\<close> show ?thesis by (simp add: parent_def)
  qed
qed

lemma reach_rewired_low:
  assumes sh: "shape (tree st)" and ci: "cost_inv st"
    and pr: "\<And>v. parent t' v = (if v = i then Some new_idx else parent (tree st) v)"
  shows "ancestor (tree st) k v = Some 0 \<Longrightarrow> cst st v < cst st i \<Longrightarrow> ancestor t' k v = Some 0"
proof (induction k arbitrary: v)
  case 0
  then show ?case by simp
next
  case (Suc k)
  from Suc.prems(1) obtain p where p: "parent (tree st) v = Some p" "ancestor (tree st) k p = Some 0"
    by (auto split: option.splits)
  from Suc.prems(2) have "v \<noteq> i" by auto
  with p pr have p': "parent t' v = Some p" by simp
  have "cst st p \<le> cst st v"
    using parent_cost_le [OF sh ci p(1)] distance_nonneg by (smt (verit))
  with Suc.prems(2) have "cst st p < cst st i" by simp
  from Suc.IH [OF p(2) this] p' show ?case by simp
qed

lemma reach_rewired_all:
  assumes pr: "\<And>v. parent t' v = (if v = i then Some new_idx else parent t v)"
    and new: "ancestor t' m new_idx = Some 0"
  shows "ancestor t k v = Some 0 \<Longrightarrow> \<exists>k'. ancestor t' k' v = Some 0"
proof (induction k arbitrary: v)
  case 0
  then have "ancestor t' 0 v = Some 0" by simp
  then show ?case by blast
next
  case (Suc k)
  show ?case
  proof (cases "v = i")
    case True
    with pr new have "ancestor t' (Suc m) v = Some 0" by simp
    then show ?thesis by blast
  next
    case False
    from Suc.prems obtain p where p: "parent t v = Some p" "ancestor t k p = Some 0"
      by (auto split: option.splits)
    from Suc.IH [OF p(2)] obtain k' where "ancestor t' k' p = Some 0" by blast
    with p(1) False pr have "ancestor t' (Suc k') v = Some 0" by simp
    then show ?thesis by blast
  qed
qed

lemma path_inv_cong:
  "path st' = path st \<Longrightarrow> vertices (tree st') = vertices (tree st) \<Longrightarrow>
   path_inv P st' = path_inv P st"
  by (simp add: path_inv_def split: option.splits)

lemma rewired_inv:
  assumes inv: "tree_inv P st"
    and new: "new_idx < length (vertices (tree st))"
    and i: "i < length (vertices (tree st))"
    and lt: "cst st new_idx + distance (vertices (tree st) ! new_idx) (vertices (tree st) ! i)
             < cst st i"
  defines "c \<equiv> cst st new_idx + distance (vertices (tree st) ! new_idx) (vertices (tree st) ! i)"
  defines "st' \<equiv> st\<lparr>cost := (cost st)(i \<mapsto> c),
                      tree := (tree st)\<lparr>edges := (edges (tree st))[i - 1 := (new_idx, i)]\<rparr>\<rparr>"
  shows "tree_inv P st'" and "0 < i" and "i \<noteq> new_idx"
proof -
  let ?t = "tree st" and ?vs = "vertices (tree st)" and ?es = "edges (tree st)"
  from inv have sh: "shape ?t" and re: "reach ?t" and ci: "cost_inv st"
    and pi: "path_inv P st" and v0: "?vs ! 0 = cur_q P"
    by (simp_all add: tree_inv_def)
  have d0: "0 \<le> distance (?vs ! new_idx) (?vs ! i)" by simp
  have cn: "0 \<le> cst st new_idx" by (rule cost_nonneg [OF sh re ci new])
  from lt d0 have lt': "cst st new_idx < cst st i" by linarith
  then show ne: "i \<noteq> new_idx" by auto
  show ipos: "0 < i"
  proof (rule ccontr)
    assume "\<not> 0 < i"
    then have "cst st i = 0" using cst_0 [OF ci] by simp
    with lt' cn show False by simp
  qed
  from sh i have ile: "i \<le> length ?es" by (simp add: shape_def)
  have vs': "vertices (tree st') = ?vs" by (simp add: st'_def)
  have es': "edges (tree st') = ?es[i - 1 := (new_idx, i)]" by (simp add: st'_def)
  have cst': "\<And>v. cst st' v = (if v = i then c else cst st v)"
    by (simp add: st'_def cst_def)
  have par: "\<And>v. parent (tree st') v = (if v = i then Some new_idx else parent ?t v)"
    using parent_rewired [OF ipos ile] by (simp add: st'_def)
  have sh': "shape (tree st')"
    unfolding shape_def vs' es'
  proof (intro conjI allI impI)
    show "length (?es[i - 1 := (new_idx, i)]) + 1 = length ?vs"
      using sh by (simp add: shape_def)
  next
    fix j assume "j < length (?es[i - 1 := (new_idx, i)])"
    then have j: "j < length ?es" by simp
    with sh have "snd (?es ! j) = Suc j" "fst (?es ! j) < length ?vs"
      unfolding shape_def by blast+
    with j ipos new show "snd (?es[i - 1 := (new_idx, i)] ! j) = Suc j"
      by (cases "j = i - 1") (simp_all)
  next
    fix j assume "j < length (?es[i - 1 := (new_idx, i)])"
    then have j: "j < length ?es" by simp
    with sh have "fst (?es ! j) < length ?vs"
      unfolding shape_def by blast
    with j new show "fst (?es[i - 1 := (new_idx, i)] ! j) < length ?vs"
      by (cases "j = i - 1") (simp_all)
  qed
  have ci': "cost_inv st'"
    unfolding cost_inv_def vs' es'
  proof (intro conjI allI impI)
    from ci i show "dom (cost st') = {..<length ?vs}"
      by (auto simp: st'_def cost_inv_def)
  next
    from ci ipos show "cost st' 0 = Some 0"
      by (simp add: st'_def cost_inv_def)
  next
    fix j assume "j < length (?es[i - 1 := (new_idx, i)])"
    then have j: "j < length ?es" by simp
    show "cst st' (fst (?es[i - 1 := (new_idx, i)] ! j)) +
            distance (?vs ! fst (?es[i - 1 := (new_idx, i)] ! j)) (?vs ! Suc j)
          \<le> cst st' (Suc j)"
    proof (cases "j = i - 1")
      case True
      with j ipos ne show ?thesis by (simp add: cst' c_def)
    next
      case False
      with ipos have sj: "Suc j \<noteq> i" by auto
      from ci j have old: "cst st (fst (?es ! j)) + distance (?vs ! fst (?es ! j)) (?vs ! Suc j)
                           \<le> cst st (Suc j)"
        unfolding cost_inv_def by blast
      have "cst st' (fst (?es ! j)) \<le> cst st (fst (?es ! j))"
        using lt by (simp add: cst' c_def)
      with old False sj show ?thesis by (simp add: cst')
    qed
  qed
  have re': "reach (tree st')"
    unfolding reach_def vs'
  proof (intro allI impI)
    fix v assume v: "v < length ?vs"
    from re new obtain m where m: "ancestor ?t m new_idx = Some 0"
      unfolding reach_def by blast
    have m': "ancestor (tree st') m new_idx = Some 0"
      by (rule reach_rewired_low [OF sh ci par m lt'])
    from re v obtain k where "ancestor ?t k v = Some 0"
      unfolding reach_def by blast
    from reach_rewired_all [OF par m' this]
    show "\<exists>k. ancestor (tree st') k v = Some 0" .
  qed
  have pi': "path_inv P st'"
    using pi path_inv_cong [of st' st P] vs' by (simp add: st'_def)
  from sh' re' ci' pi' v0 show "tree_inv P st'"
    by (simp add: tree_inv_def vs')
qed

lemma get_new_cost_ok:
  "cost_inv st \<Longrightarrow> idx < length (vertices (tree st)) \<Longrightarrow>
   get_new_cost st idx A B = Inr (cst st idx + distance A B)"
  by (simp add: get_new_cost_def cost_Some)

lemma py_pos_pred: "0 < i \<Longrightarrow> i \<le> m \<Longrightarrow> py_pos m (int i - 1) = Inr (i - 1)"
  by (auto simp: py_pos_def Let_def nat_diff_distrib')

lemma py_pos_last: "0 < m \<Longrightarrow> py_pos m (- 1) = Inr (m - 1)"
  by (auto simp: py_pos_def Let_def nat_diff_distrib')

lemma rewire_step_eq:
  assumes inv: "tree_inv P st"
    and new: "new_idx < length (vertices (tree st))"
    and i: "i < length (vertices (tree st))"
    and q: "new_q = vertices (tree st) ! new_idx"
  defines "c \<equiv> cst st new_idx + distance (vertices (tree st) ! new_idx) (vertices (tree st) ! i)"
  shows "rewire_step P new_q new_idx st i =
         Inr (if collision_free P (vertices (tree st) ! i) \<and> c < cst st i
              then st\<lparr>cost := (cost st)(i \<mapsto> c),
                      tree := (tree st)\<lparr>edges := (edges (tree st))[i - 1 := (new_idx, i)]\<rparr>\<rparr>
              else st)"
proof -
  from inv have sh: "shape (tree st)" and ci: "cost_inv st"
    by (simp_all add: tree_inv_def)
  have g: "get_new_cost st new_idx new_q (vertices (tree st) ! i) = Inr c"
    using get_new_cost_ok [OF ci new] by (simp add: c_def q)
  have ci_i: "cost st i = Some (cst st i)" by (rule cost_Some [OF ci i])
  show ?thesis
  proof (cases "collision_free P (vertices (tree st) ! i) \<and> c < cst st i")
    case False
    then show ?thesis
      using i g ci_i by (auto simp: rewire_step_def Let_def)
  next
    case True
    then have lt: "cst st new_idx + distance (vertices (tree st) ! new_idx) (vertices (tree st) ! i)
                   < cst st i"
      by (simp add: c_def)
    from rewired_inv(2) [OF inv new i lt] have ipos: "0 < i" .
    from sh i have ile: "i \<le> length (edges (tree st))" by (simp add: shape_def)
    from ipos ile have "i - 1 < length (edges (tree st))" by simp
    with sh have "snd (edges (tree st) ! (i - 1)) = Suc (i - 1)"
      unfolding shape_def by blast
    with ipos have sn: "snd (edges (tree st) ! (i - 1)) = i" by simp
    show ?thesis
      using True i g ci_i py_pos_pred [OF ipos ile] sn
      by (simp add: rewire_step_def Let_def)
  qed
qed

lemma rewire_step_inv:
  assumes inv: "tree_inv P st"
    and new: "new_idx < length (vertices (tree st))"
    and i: "i < length (vertices (tree st))"
    and q: "new_q = vertices (tree st) ! new_idx"
  shows "\<exists>st'. rewire_step P new_q new_idx st i = Inr st' \<and> tree_inv P st' \<and>
              vertices (tree st') = vertices (tree st) \<and> path st' = path st \<and>
              length (edges (tree st')) = length (edges (tree st)) \<and>
              (\<forall>v. cst st' v \<le> cst st v)"
proof -
  let ?c = "cst st new_idx + distance (vertices (tree st) ! new_idx) (vertices (tree st) ! i)"
  show ?thesis
  proof (cases "collision_free P (vertices (tree st) ! i) \<and> ?c < cst st i")
    case False
    then have "rewire_step P new_q new_idx st i = Inr st"
      using rewire_step_eq [OF inv new i q] by (simp only: if_False)
    with inv show ?thesis by simp
  next
    case True
    then have lt: "?c < cst st i" by simp
    let ?st' = "st\<lparr>cost := (cost st)(i \<mapsto> ?c),
                    tree := (tree st)\<lparr>edges := (edges (tree st))[i - 1 := (new_idx, i)]\<rparr>\<rparr>"
    have "rewire_step P new_q new_idx st i = Inr ?st'"
      using rewire_step_eq [OF inv new i q] True by simp
    moreover have "tree_inv P ?st'" by (rule rewired_inv(1) [OF inv new i lt])
    moreover have "\<forall>v. cst ?st' v \<le> cst st v"
      using lt by (simp add: cst_def)
    ultimately show ?thesis by simp
  qed
qed

lemma rewire_inv:
  "tree_inv P st \<Longrightarrow> new_idx < length (vertices (tree st)) \<Longrightarrow>
   new_q = vertices (tree st) ! new_idx \<Longrightarrow>
   \<forall>i\<in>set nbrs. i < length (vertices (tree st)) \<Longrightarrow>
   \<exists>st'. rewire P st nbrs new_q new_idx = Inr st' \<and> tree_inv P st' \<and>
         vertices (tree st') = vertices (tree st) \<and> path st' = path st \<and>
         length (edges (tree st')) = length (edges (tree st)) \<and>
         (\<forall>v. cst st' v \<le> cst st v)"
proof (induction nbrs arbitrary: st)
  case Nil
  then show ?case by simp
next
  case (Cons i nbrs)
  from Cons.prems(4) have i: "i < length (vertices (tree st))" by simp
  from rewire_step_inv [OF Cons.prems(1,2) i Cons.prems(3)]
  obtain st1 where s1: "rewire_step P new_q new_idx st i = Inr st1" "tree_inv P st1"
    "vertices (tree st1) = vertices (tree st)" "path st1 = path st"
    "length (edges (tree st1)) = length (edges (tree st))"
    "\<forall>v. cst st1 v \<le> cst st v"
    by blast
  have "\<exists>st'. rewire P st1 nbrs new_q new_idx = Inr st' \<and> tree_inv P st' \<and>
         vertices (tree st') = vertices (tree st1) \<and> path st' = path st1 \<and>
         length (edges (tree st')) = length (edges (tree st1)) \<and>
         (\<forall>v. cst st' v \<le> cst st1 v)"
    using Cons.prems s1 by (intro Cons.IH) simp_all
  then obtain st2 where s2: "rewire P st1 nbrs new_q new_idx = Inr st2" "tree_inv P st2"
    "vertices (tree st2) = vertices (tree st1)" "path st2 = path st1"
    "length (edges (tree st2)) = length (edges (tree st1))"
    "\<forall>v. cst st2 v \<le> cst st1 v"
    by blast
  have "\<forall>v. cst st2 v \<le> cst st v"
    using s1(6) s2(6) order_trans by blast
  with s1 s2 show ?case by simp
qed

lemma get_minimum_cost_ok:
  "cost_inv st \<Longrightarrow> \<forall>i\<in>set nbrs. i < length (vertices (tree st)) \<Longrightarrow>
   p0 < length (vertices (tree st)) \<Longrightarrow>
   c0 = cst st p0 + distance (vertices (tree st) ! p0) new_q \<Longrightarrow>
   \<exists>c p. get_minimum_cost P st nbrs new_q c0 p0 = Inr (c, p) \<and>
         p < length (vertices (tree st)) \<and>
         c = cst st p + distance (vertices (tree st) ! p) new_q"
proof (induction nbrs arbitrary: c0 p0)
  case Nil
  then show ?case by simp
next
  case (Cons i nbrs)
  let ?ci = "cst st i + distance (vertices (tree st) ! i) new_q"
  from Cons.prems(2) have i: "i < length (vertices (tree st))"
    and rest: "\<forall>i\<in>set nbrs. i < length (vertices (tree st))" by simp_all
  have g: "get_new_cost st i new_q (vertices (tree st) ! i) = Inr ?ci"
    using get_new_cost_ok [OF Cons.prems(1) i] by (simp add: distance_commute)
  have pg: "py_get (vertices (tree st)) i = Inr (vertices (tree st) ! i)"
    using i by simp
  show ?case
  proof (cases "?ci < c0 \<and> collision_free P new_q")
    case True
    from Cons.IH [OF Cons.prems(1) rest i refl]
    obtain c p where r: "get_minimum_cost P st nbrs new_q ?ci i = Inr (c, p)"
      "p < length (vertices (tree st))" "c = cst st p + distance (vertices (tree st) ! p) new_q"
      by blast
    have "get_minimum_cost P st (i # nbrs) new_q c0 p0 = Inr (c, p)"
      by (simp only: get_minimum_cost.simps pg g ebind_Inr True if_True simp_thms r(1))
    with r(2,3) show ?thesis by blast
  next
    case False
    from Cons.IH [OF Cons.prems(1) rest Cons.prems(3,4)]
    obtain c p where r: "get_minimum_cost P st nbrs new_q c0 p0 = Inr (c, p)"
      "p < length (vertices (tree st))" "c = cst st p + distance (vertices (tree st) ! p) new_q"
      by blast
    have "get_minimum_cost P st (i # nbrs) new_q c0 p0 = Inr (c, p)"
      by (simp only: get_minimum_cost.simps pg g ebind_Inr False if_False simp_thms r(1))
    with r(2,3) show ?thesis by blast
  qed
qed

subsection \<open>Inserting a vertex\<close>

lemma parent_inserted:
  "shape t \<Longrightarrow>
   parent (add_edge (add_vertex t q) (p, length (vertices t))) v =
     (if v = length (vertices t) then Some p else parent t v)"
  by (auto simp: parent_def add_edge_def add_vertex_def shape_def nth_append)

lemma ancestor_inserted:
  assumes sh: "shape t"
  shows "v < length (vertices t) \<Longrightarrow>
         ancestor (add_edge (add_vertex t q) (p, length (vertices t))) k v = ancestor t k v"
proof (induction k arbitrary: v)
  case 0
  show ?case by simp
next
  case (Suc k)
  show ?case
  proof (cases "parent t v")
    case None
    with Suc.prems show ?thesis by (simp add: parent_inserted [OF sh])
  next
    case (Some a)
    from parent_SomeD [OF sh Some] have "a < length (vertices t)" by simp
    from Suc.IH [OF this] Some Suc.prems show ?thesis
      by (simp add: parent_inserted [OF sh])
  qed
qed

lemma inserted_inv:
  assumes inv: "tree_inv P st"
    and p: "p < length (vertices (tree st))"
    and c: "c = cst st p + distance (vertices (tree st) ! p) new_q"
  defines "n \<equiv> length (vertices (tree st))"
  defines "st2 \<equiv> st\<lparr>tree := add_edge (add_vertex (tree st) new_q) (p, n),
                      cost := (cost st)(n \<mapsto> c)\<rparr>"
  shows "tree_inv P st2"
proof -
  let ?t = "tree st" and ?vs = "vertices (tree st)" and ?es = "edges (tree st)"
  from inv have sh: "shape ?t" and re: "reach ?t" and ci: "cost_inv st"
    and pi: "path_inv P st" and v0: "?vs ! 0 = cur_q P"
    by (simp_all add: tree_inv_def)
  from sh have len: "length ?es + 1 = n" by (simp add: shape_def n_def)
  have vs2: "vertices (tree st2) = ?vs @ [new_q]"
    by (simp add: st2_def add_edge_def add_vertex_def)
  have es2: "edges (tree st2) = ?es @ [(p, n)]"
    by (simp add: st2_def add_edge_def add_vertex_def)
  have t2: "tree st2 = add_edge (add_vertex ?t new_q) (p, length ?vs)"
    by (simp add: st2_def n_def)
  have cst2: "\<And>v. cst st2 v = (if v = n then c else cst st v)"
    by (simp add: st2_def cst_def)
  have sh2: "shape (tree st2)"
    unfolding shape_def vs2 es2
  proof (intro conjI allI impI)
    show "length (?es @ [(p, n)]) + 1 = length (?vs @ [new_q])"
      using len by (simp add: n_def)
  next
    fix j assume j: "j < length (?es @ [(p, n)])"
    show "snd ((?es @ [(p, n)]) ! j) = Suc j"
    proof (cases "j < length ?es")
      case True
      with sh have "snd (?es ! j) = Suc j" unfolding shape_def by blast
      with True show ?thesis by (simp add: nth_append)
    next
      case False
      with j have "j = length ?es" by simp
      with len show ?thesis by (simp add: nth_append)
    qed
  next
    fix j assume j: "j < length (?es @ [(p, n)])"
    show "fst ((?es @ [(p, n)]) ! j) < length (?vs @ [new_q])"
    proof (cases "j < length ?es")
      case True
      with sh have "fst (?es ! j) < length ?vs" unfolding shape_def by blast
      with True show ?thesis by (simp add: nth_append)
    next
      case False
      with j have "j = length ?es" by simp
      with p show ?thesis by (simp add: nth_append)
    qed
  qed
  have ci2: "cost_inv st2"
    unfolding cost_inv_def vs2 es2
  proof (intro conjI allI impI)
    from ci show "dom (cost st2) = {..<length (?vs @ [new_q])}"
      by (auto simp: st2_def cost_inv_def n_def)
  next
    from ci len show "cost st2 0 = Some 0"
      by (auto simp: st2_def cost_inv_def)
  next
    fix j assume j: "j < length (?es @ [(p, n)])"
    show "cst st2 (fst ((?es @ [(p, n)]) ! j)) +
            distance ((?vs @ [new_q]) ! fst ((?es @ [(p, n)]) ! j)) ((?vs @ [new_q]) ! Suc j)
          \<le> cst st2 (Suc j)"
    proof (cases "j < length ?es")
      case True
      with sh have f: "fst (?es ! j) < n" unfolding shape_def n_def by blast
      from True len have sj: "Suc j < n" by simp
      from ci True have "cst st (fst (?es ! j)) + distance (?vs ! fst (?es ! j)) (?vs ! Suc j)
                           \<le> cst st (Suc j)"
        unfolding cost_inv_def by blast
      with True f sj show ?thesis
        by (simp add: nth_append cst2 n_def)
    next
      case False
      with j have je: "j = length ?es" by simp
      with len have sj: "Suc j = n" by simp
      from p have pn: "p \<noteq> n" by (simp add: n_def)
      show ?thesis
        using p pn c by (simp add: je nth_append cst2 sj [unfolded je]) (simp add: n_def)
    qed
  qed
  have re2: "reach (tree st2)"
    unfolding reach_def vs2
  proof (intro allI impI)
    fix v assume v: "v < length (?vs @ [new_q])"
    show "\<exists>k. ancestor (tree st2) k v = Some 0"
    proof (cases "v < length ?vs")
      case True
      with re obtain k where "ancestor ?t k v = Some 0" unfolding reach_def by blast
      with ancestor_inserted [OF sh True] have "ancestor (tree st2) k v = Some 0"
        by (simp add: t2)
      then show ?thesis by blast
    next
      case False
      with v have ve: "v = length ?vs" by simp
      from re p obtain k where "ancestor ?t k p = Some 0" unfolding reach_def by blast
      with ancestor_inserted [OF sh p] have "ancestor (tree st2) k p = Some 0"
        by (simp add: t2)
      then have "ancestor (tree st2) (Suc k) v = Some 0"
        by (simp add: t2 ve parent_inserted [OF sh])
      then show ?thesis by blast
    qed
  qed
  have pi2: "path_inv P st2"
  proof (cases "path st")
    case None
    then show ?thesis by (simp add: path_inv_def st2_def)
  next
    case (Some pth)
    with pi obtain i where i: "0 < i" "i < length ?vs" "last (butlast pth) = ?vs ! i"
      "reach_to_goal P (?vs ! i)"
      and rest: "3 \<le> length pth" "hd pth = cur_q P" "last pth = goal_q P"
        "set (butlast pth) \<subseteq> set ?vs"
      by (auto simp: path_inv_def)
    have "path st2 = Some pth" using Some by (simp add: st2_def)
    moreover have "\<exists>i>0. i < length (?vs @ [new_q]) \<and> last (butlast pth) = (?vs @ [new_q]) ! i \<and>
                        reach_to_goal P ((?vs @ [new_q]) ! i)"
      using i by (intro exI [of _ i]) (simp add: nth_append)
    ultimately show ?thesis
      using rest unfolding path_inv_def vs2 by auto
  qed
  from p have "0 < length ?vs" by (cases ?vs) auto
  with v0 have "vertices (tree st2) ! 0 = cur_q P"
    by (simp add: vs2 nth_append)
  with sh2 re2 ci2 pi2 show ?thesis
    by (simp add: tree_inv_def)
qed

subsection \<open>Extracting the path\<close>

lemma shape_len: "shape t \<Longrightarrow> length (vertices t) = Suc (length (edges t))"
  by (simp add: shape_def)

lemma walk_lt:
  "shape t \<Longrightarrow> v < length (vertices t) \<Longrightarrow> ancestor t k v = Some 0 \<Longrightarrow>
   \<forall>w\<in>set (walk t k v). w < length (vertices t)"
proof (induction k arbitrary: v)
  case 0
  then show ?case by simp
next
  case (Suc k)
  from Suc.prems(3) obtain p where p: "parent t v = Some p" "ancestor t k p = Some 0"
    by (auto split: option.splits)
  from parent_SomeD [OF Suc.prems(1) p(1)] have "p < length (vertices t)" by simp
  from Suc.IH [OF Suc.prems(1) this p(2)] p(1) Suc.prems(2) show ?case by simp
qed

lemma find_path_loop_ok:
  "shape t \<Longrightarrow> v < length (vertices t) \<Longrightarrow> ancestor t k v = Some 0 \<Longrightarrow>
   find_path_loop t v acc = Some (Inr (acc @ map ((!) (vertices t)) (walk t k v)))"
proof (induction k arbitrary: v acc)
  case 0
  then have "v = 0" by simp
  then show ?case by (subst find_path_loop.simps) simp
next
  case (Suc k)
  from Suc.prems(3) obtain p where p: "parent t v = Some p" "ancestor t k p = Some 0"
    by (auto split: option.splits)
  from parent_SomeD [OF Suc.prems(1) p(1)]
  have v: "0 < v" and pl: "p < length (vertices t)" and e: "edges t ! (v - 1) = (p, v)"
    by simp_all
  from shape_len [OF Suc.prems(1)] Suc.prems(2) v have j: "v - 1 < length (edges t)" by arith
  have "find_path_loop t v acc = find_path_loop t p (acc @ [vertices t ! v])"
    using v Suc.prems(2) j e by (subst find_path_loop.simps) simp
  also have "\<dots> = Some (Inr ((acc @ [vertices t ! v]) @ map ((!) (vertices t)) (walk t k p)))"
    by (rule Suc.IH [OF Suc.prems(1) pl p(2)])
  finally show ?case using p(1) by simp
qed

lemma find_path_ok:
  assumes inv: "tree_inv P st" and ne: "edges (tree st) \<noteq> []"
  defines "g \<equiv> length (vertices (tree st)) - 1"
  shows "\<exists>pth k. find_path P (tree st) = Inr pth \<and>
           ancestor (tree st) k g = Some 0 \<and>
           pth = cur_q P # rev (map ((!) (vertices (tree st))) (walk (tree st) k g)) @ [goal_q P] \<and>
           3 \<le> length pth \<and> hd pth = cur_q P \<and> last pth = goal_q P \<and>
           set (butlast pth) \<subseteq> set (vertices (tree st)) \<and>
           last (butlast pth) = vertices (tree st) ! g"
proof -
  let ?t = "tree st" and ?vs = "vertices (tree st)" and ?es = "edges (tree st)"
  from inv have sh: "shape ?t" and re: "reach ?t" and v0: "?vs ! 0 = cur_q P"
    by (simp_all add: tree_inv_def)
  from ne have m: "0 < length ?es" by simp
  with shape_len [OF sh] have gl: "g < length ?vs" and ge: "g = length ?es" and gpos: "0 < g"
    by (simp_all add: g_def)
  from sh m have "snd (?es ! (length ?es - 1)) = Suc (length ?es - 1)"
    unfolding shape_def by simp
  with m ge have sn: "snd (?es ! (length ?es - 1)) = g" by simp
  from re gl obtain k where k: "ancestor ?t k g = Some 0"
    unfolding reach_def by blast
  from k gpos obtain k' where k': "k = Suc k'" by (cases k) auto
  from k k' obtain p where p: "parent ?t g = Some p" by (auto split: option.splits)
  let ?w = "walk ?t k g"
  let ?pth = "cur_q P # rev (map ((!) ?vs) ?w) @ [goal_q P]"
  have w: "?w = g # walk ?t k' p" using k' p by simp
  have loop: "find_path_loop ?t g [goal_q P] = Some (Inr ([goal_q P] @ map ((!) ?vs) ?w))"
    by (rule find_path_loop_ok [OF sh gl k])
  have fp: "find_path P ?t = Inr ?pth"
    using py_pos_last [OF m] sn loop by (simp add: find_path_def Let_def)
  have bl: "butlast ?pth = cur_q P # rev (map ((!) ?vs) ?w)"
    by (simp add: butlast_append)
  have "butlast ?pth = (cur_q P # rev (map ((!) ?vs) (walk ?t k' p))) @ [?vs ! g]"
    unfolding bl by (simp add: w)
  then have lb: "last (butlast ?pth) = ?vs ! g"
    by (simp only: last_snoc)
  have "0 < length ?vs" using gl by (cases ?vs) auto
  then have "cur_q P \<in> set ?vs" using v0 nth_mem by metis
  moreover have "set (map ((!) ?vs) ?w) \<subseteq> set ?vs"
    using walk_lt [OF sh gl k] by auto
  ultimately have sub: "set (butlast ?pth) \<subseteq> set ?vs"
    unfolding bl by simp
  have len: "3 \<le> length ?pth" unfolding w by simp
  have "hd ?pth = cur_q P" "last ?pth = goal_q P" by simp_all
  with fp k len sub lb show ?thesis by blast
qed

subsection \<open>One iteration\<close>

lemma rejected_unchanged:
  "nearest_neighbor P (random_state P d) (tree st) = Inr (nearest_q, nearest_idx) \<Longrightarrow>
   \<not> (collision_free P (new_state P nearest_q (random_state P d)) \<and>
      q_in_limits P (new_state P nearest_q (random_state P d))) \<Longrightarrow>
   iteration P st d = Inr st"
  by (auto simp: iteration_def Let_def)

lemma find_near_neighbor_lt:
  "find_near_neighbor P t q = Inr nbrs \<Longrightarrow> \<forall>i\<in>set nbrs. i < length (vertices t)"
  by (auto simp: find_near_neighbor_def Let_def near_loop_eq split: if_splits)

lemma find_near_neighbor_cases:
  "(dimension P = 0 \<and> find_near_neighbor P t q = Inl ZeroDivisionError) \<or>
   (0 < dimension P \<and> (\<exists>nbrs. find_near_neighbor P t q = Inr nbrs))"
  by (auto simp: find_near_neighbor_def Let_def)

lemma vertices_add_vertex [simp]: "vertices (add_vertex t q) = vertices t @ [q]"
  by (simp add: add_vertex_def)

lemma vertices_add_edge [simp]: "vertices (add_edge t e) = vertices t"
  by (simp add: add_edge_def)

lemma edges_add_vertex [simp]: "edges (add_vertex t q) = edges t"
  by (simp add: add_vertex_def)

lemma edges_add_edge [simp]: "edges (add_edge t e) = edges t @ [e]"
  by (simp add: add_edge_def)

lemma tree_inv_path_update:
  assumes inv: "tree_inv P st"
    and pth: "3 \<le> length pth" "hd pth = cur_q P" "last pth = goal_q P"
      "set (butlast pth) \<subseteq> set (vertices (tree st))"
      "last (butlast pth) = vertices (tree st) ! i" "0 < i" "i < length (vertices (tree st))"
      "reach_to_goal P (vertices (tree st) ! i)"
  shows "tree_inv P (st\<lparr>path := Some pth\<rparr>)"
proof -
  have "path_inv P (st\<lparr>path := Some pth\<rparr>)"
    unfolding path_inv_def using pth by auto
  moreover have "cost_inv (st\<lparr>path := Some pth\<rparr>)"
    using inv by (simp add: tree_inv_def cost_inv_def cst_def)
  ultimately show ?thesis using inv by (simp add: tree_inv_def)
qed

lemma cst_path_update [simp]: "cst (st\<lparr>path := x\<rparr>) v = cst st v"
  by (simp add: cst_def)

text \<open>An iteration either stops at the division by a zero dimension, or leaves the state as
  it is, or appends the steered configuration; in the last case the path is replaced when this
  configuration passes the goal check and kept otherwise.\<close>

lemma iteration_step:
  assumes inv: "tree_inv P st"
  shows "(dimension P = 0 \<and> iteration P st d = Inl ZeroDivisionError) \<or>
         (\<exists>st'. iteration P st d = Inr st' \<and> tree_inv P st' \<and>
            (\<forall>v<length (vertices (tree st)). cst st' v \<le> cst st v) \<and>
            (st' = st \<or>
             (\<exists>nq ni. nearest_neighbor P (random_state P d) (tree st) = Inr (nq, ni) \<and>
                collision_free P (new_state P nq (random_state P d)) \<and>
                q_in_limits P (new_state P nq (random_state P d)) \<and>
                vertices (tree st') = vertices (tree st) @ [new_state P nq (random_state P d)] \<and>
                (if reach_to_goal P (new_state P nq (random_state P d))
                 then path st' \<noteq> None else path st' = path st))))"
proof -
  let ?t = "tree st" and ?vs = "vertices (tree st)" and ?n = "length (vertices (tree st))"
  let ?rq = "random_state P d"
  from inv have sh: "shape ?t" and ci: "cost_inv st" by (simp_all add: tree_inv_def)
  from shape_len [OF sh] have "?vs \<noteq> []" by auto
  from nearest_neighbor_ok [OF this] obtain ni where ni: "ni < ?n"
    and nn: "nearest_neighbor P ?rq ?t = Inr (?vs ! ni, ni)" by blast
  let ?nq = "new_state P (?vs ! ni) ?rq"
  show ?thesis
  proof (cases "collision_free P ?nq \<and> q_in_limits P ?nq")
    case False
    then have "iteration P st d = Inr st"
      by (rule rejected_unchanged [OF nn])
    with inv show ?thesis by simp
  next
    case valid: True
    from find_near_neighbor_cases [of P ?t ?nq] show ?thesis
    proof (elim disjE conjE exE)
      assume "dimension P = 0" and "find_near_neighbor P ?t ?nq = Inl ZeroDivisionError"
      then show ?thesis using nn valid by (simp add: iteration_def Let_def)
    next
      fix nbrs assume fnn: "find_near_neighbor P ?t ?nq = Inr nbrs"
      from find_near_neighbor_lt [OF fnn] have nb: "\<forall>i\<in>set nbrs. i < ?n" .
      let ?c0 = "cst st ni + distance (?vs ! ni) ?nq"
      have gnc: "get_new_cost st ni (?vs ! ni) ?nq = Inr ?c0"
        by (rule get_new_cost_ok [OF ci ni])
      from get_minimum_cost_ok [OF ci nb ni refl, where new_q = ?nq and P = P]
      obtain c p where gmc: "get_minimum_cost P st nbrs ?nq ?c0 ni = Inr (c, p)"
        and p: "p < ?n" and c: "c = cst st p + distance (?vs ! p) ?nq"
        by blast
      let ?st2 = "st\<lparr>tree := add_edge (add_vertex ?t ?nq) (p, ?n), cost := (cost st)(?n \<mapsto> c)\<rparr>"
      have inv2: "tree_inv P ?st2" by (rule inserted_inv [OF inv p c])
      have vs2: "vertices (tree ?st2) = ?vs @ [?nq]"
        by (simp add: add_edge_def add_vertex_def)
      have es2: "length (edges (tree ?st2)) = Suc (length (edges ?t))"
        by (simp add: add_edge_def add_vertex_def)
      have cst2: "\<And>v. v < ?n \<Longrightarrow> cst ?st2 v = cst st v"
        by (simp add: cst_def)
      have "\<exists>st'. rewire P ?st2 nbrs ?nq ?n = Inr st' \<and> tree_inv P st' \<and>
         vertices (tree st') = vertices (tree ?st2) \<and> path st' = path ?st2 \<and>
         length (edges (tree st')) = length (edges (tree ?st2)) \<and>
         (\<forall>v. cst st' v \<le> cst ?st2 v)"
        using nb by (intro rewire_inv [OF inv2]) (simp_all add: less_Suc_eq)
      then obtain st3 where rw: "rewire P ?st2 nbrs ?nq ?n = Inr st3"
        and inv3: "tree_inv P st3" and vs3: "vertices (tree st3) = ?vs @ [?nq]"
        and es3: "length (edges (tree st3)) = Suc (length (edges ?t))"
        and c3: "\<forall>v. cst st3 v \<le> cst ?st2 v"
        and p3: "path st3 = path st"
        using vs2 es2 by auto
      have mono: "\<forall>v<?n. cst st3 v \<le> cst st v"
        using c3 cst2 by metis
      have it: "iteration P st d =
                (if reach_to_goal P ?nq
                 then ebind (find_path P (tree st3)) (\<lambda>pth. Inr (st3\<lparr>path := Some pth\<rparr>))
                 else Inr st3)"
        using nn valid fnn gnc gmc rw by (simp add: iteration_def Let_def)
      show ?thesis
      proof (cases "reach_to_goal P ?nq")
        case False
        with it have "iteration P st d = Inr st3" by simp
        with inv3 vs3 mono p3 nn valid False show ?thesis by auto
      next
        case True
        from es3 have ne: "edges (tree st3) \<noteq> []" by auto
        from find_path_ok [OF inv3 ne] obtain pth where fp: "find_path P (tree st3) = Inr pth"
          and pp: "3 \<le> length pth" "hd pth = cur_q P" "last pth = goal_q P"
            "set (butlast pth) \<subseteq> set (vertices (tree st3))"
            "last (butlast pth) = vertices (tree st3) ! (length (vertices (tree st3)) - 1)"
          by blast
        from vs3 have g: "length (vertices (tree st3)) - 1 = ?n" by simp
        from ni have npos: "0 < ?n" by auto
        have rg: "reach_to_goal P (vertices (tree st3) ! ?n)"
          using True by (simp add: vs3)
        have "tree_inv P (st3\<lparr>path := Some pth\<rparr>)"
          by (rule tree_inv_path_update [OF inv3 pp(1-4) pp(5) [unfolded g] npos _ rg])
             (simp add: vs3)
        moreover from it True fp have "iteration P st d = Inr (st3\<lparr>path := Some pth\<rparr>)"
          by simp
        ultimately show ?thesis using vs3 mono nn valid True by auto
      qed
    qed
  qed
qed

lemma iteration_inv:
  assumes inv: "tree_inv P st"
  shows "(dimension P = 0 \<and> iteration P st d = Inl ZeroDivisionError) \<or>
         (\<exists>st'. iteration P st d = Inr st' \<and> tree_inv P st' \<and>
            (\<exists>ws. vertices (tree st') = vertices (tree st) @ ws \<and> length ws \<le> 1) \<and>
            (\<forall>v<length (vertices (tree st)). cst st' v \<le> cst st v))"
proof -
  from iteration_step [OF inv, of d] show ?thesis
  proof (elim disjE conjE exE)
    assume "dimension P = 0" "iteration P st d = Inl ZeroDivisionError"
    then show ?thesis by simp
  next
    fix st'
    assume a: "iteration P st d = Inr st'" "tree_inv P st'"
      "\<forall>v<length (vertices (tree st)). cst st' v \<le> cst st v" "st' = st"
    have "vertices (tree st') = vertices (tree st) @ [] \<and> length ([] :: config list) \<le> 1"
      using a(4) by simp
    with a(1-3) show ?thesis by blast
  next
    fix st' nq ni
    assume a: "iteration P st d = Inr st'" "tree_inv P st'"
      "\<forall>v<length (vertices (tree st)). cst st' v \<le> cst st v"
      "vertices (tree st') = vertices (tree st) @ [new_state P nq (random_state P d)]"
    have "length [new_state P nq (random_state P d)] \<le> 1" by simp
    with a show ?thesis by blast
  qed
qed

subsection \<open>The number of steps to the root\<close>

lemma ancestor_prefix:
  "ancestor t (j + k) v = Some a \<Longrightarrow> \<exists>b. ancestor t j v = Some b \<and> ancestor t k b = Some a"
  by (simp add: ancestor_add split: option.splits)

lemma ancestor_shortcut:
  assumes "ancestor t k v = Some 0" "a < b" "b \<le> k"
    and "ancestor t a v = Some w" "ancestor t b v = Some w"
  shows "ancestor t (a + (k - b)) v = Some 0"
proof -
  from assms(3) have "k = b + (k - b)" by simp
  with assms(1) have "ancestor t (b + (k - b)) v = Some 0" by simp
  from ancestor_prefix [OF this] assms(5) have "ancestor t (k - b) w = Some 0" by simp
  with assms(4) show ?thesis by (simp add: ancestor_add)
qed

lemma steps_bound:
  assumes sh: "shape t" and v: "v < length (vertices t)" and r: "ancestor t m v = Some 0"
  shows "\<exists>k<length (vertices t). ancestor t k v = Some 0"
proof -
  let ?n = "length (vertices t)"
  define k where "k = (LEAST k. ancestor t k v = Some 0)"
  have k: "ancestor t k v = Some 0"
    unfolding k_def using r by (rule LeastI)
  have least: "\<And>j. ancestor t j v = Some 0 \<Longrightarrow> k \<le> j"
    unfolding k_def by (rule Least_le)
  have "k < ?n"
  proof (rule ccontr)
    assume "\<not> k < ?n"
    then have kn: "?n \<le> k" by simp
    define f where "f j = the (ancestor t j v)" for j
    have some: "\<And>j. j \<le> k \<Longrightarrow> ancestor t j v = Some (f j)"
    proof -
      fix j assume "j \<le> k"
      then have "k = j + (k - j)" by simp
      with k have "ancestor t (j + (k - j)) v = Some 0" by simp
      from ancestor_prefix [OF this] show "ancestor t j v = Some (f j)"
        by (auto simp: f_def)
    qed
    have "f ` {..k} \<subseteq> {..<?n}"
      using some ancestor_lt [OF sh v] by auto
    then have "card (f ` {..k}) \<le> card {..<?n}"
      by (intro card_mono) simp_all
    with kn have "card (f ` {..k}) < card {..k}" by simp
    then have "\<not> inj_on f {..k}" by (rule pigeonhole)
    then obtain a b where ab: "a \<le> k" "b \<le> k" "a \<noteq> b" "f a = f b"
      by (auto simp: inj_on_def)
    have "\<exists>a b. a < b \<and> b \<le> k \<and> f a = f b"
    proof (cases "a < b")
      case True
      with ab show ?thesis by blast
    next
      case False
      with ab have "b < a" by simp
      with ab show ?thesis by metis
    qed
    then obtain a b where ab': "a < b" "b \<le> k" "f a = f b" by blast
    from ab' have "a \<le> k" by simp
    from ancestor_shortcut [OF k ab'(1,2) some [OF this]] some [OF ab'(2)] ab'(3)
    have "ancestor t (a + (k - b)) v = Some 0" by simp
    from least [OF this] ab'(1,2) show False by simp
  qed
  with k show ?thesis by blast
qed

lemma tree_inv_valid:
  assumes "tree_inv P st"
  shows "tree_valid (tree st)"
proof -
  from assms have sh: "shape (tree st)" and re: "reach (tree st)"
    by (simp_all add: tree_inv_def)
  have "\<forall>v<length (vertices (tree st)).
          \<exists>k\<le>length (vertices (tree st)). ancestor (tree st) k v = Some 0"
  proof (intro allI impI)
    fix v assume v: "v < length (vertices (tree st))"
    with re obtain m where "ancestor (tree st) m v = Some 0" unfolding reach_def by blast
    from steps_bound [OF sh v this]
    show "\<exists>k\<le>length (vertices (tree st)). ancestor (tree st) k v = Some 0"
      using less_imp_le by blast
  qed
  moreover have "\<forall>e\<in>set (edges (tree st)). snd e \<noteq> 0"
  proof
    fix e assume "e \<in> set (edges (tree st))"
    then obtain j where "j < length (edges (tree st))" "e = edges (tree st) ! j"
      by (auto simp: in_set_conv_nth)
    with sh show "snd e \<noteq> 0" unfolding shape_def by simp
  qed
  ultimately show ?thesis
    using sh by (simp add: tree_valid_def shape_def)
qed

subsection \<open>The whole loop\<close>

lemma init_inv: "tree_inv P (init_state P)"
  by (simp add: tree_inv_def init_state_def shape_def reach_def cost_inv_def path_inv_def
      lessThan_Suc exI [of _ 0])

lemma run_iters_append:
  "run_iters P rnd (ks @ ks') st = ebind (run_iters P rnd ks st) (run_iters P rnd ks')"
proof (induction ks arbitrary: st)
  case Nil
  show ?case by simp
next
  case (Cons k ks)
  show ?case by (cases "iteration P st (rnd k)") (simp_all add: Cons.IH)
qed

lemma run_iters_inv:
  "tree_inv P st \<Longrightarrow>
   (dimension P = 0 \<and> run_iters P rnd ks st = Inl ZeroDivisionError) \<or>
   (\<exists>st'. run_iters P rnd ks st = Inr st' \<and> tree_inv P st' \<and>
      (\<exists>ws. vertices (tree st') = vertices (tree st) @ ws \<and> length ws \<le> length ks) \<and>
      (\<forall>v<length (vertices (tree st)). cst st' v \<le> cst st v))"
proof (induction ks arbitrary: st)
  case Nil
  then show ?case by simp
next
  case (Cons k ks)
  from iteration_inv [OF Cons.prems, of "rnd k"] show ?case
  proof (elim disjE conjE exE)
    assume "dimension P = 0" "iteration P st (rnd k) = Inl ZeroDivisionError"
    then show ?thesis by simp
  next
    fix st1 ws
    assume it: "iteration P st (rnd k) = Inr st1" and inv1: "tree_inv P st1"
      and vs1: "vertices (tree st1) = vertices (tree st) @ ws" and l1: "length ws \<le> 1"
      and c1: "\<forall>v<length (vertices (tree st)). cst st1 v \<le> cst st v"
    from Cons.IH [OF inv1] show ?thesis
    proof (elim disjE conjE exE)
      assume "dimension P = 0" "run_iters P rnd ks st1 = Inl ZeroDivisionError"
      with it show ?thesis by simp
    next
      fix st2 ws'
      assume r: "run_iters P rnd ks st1 = Inr st2" and inv2: "tree_inv P st2"
        and vs2: "vertices (tree st2) = vertices (tree st1) @ ws'" and l2: "length ws' \<le> length ks"
        and c2: "\<forall>v<length (vertices (tree st1)). cst st2 v \<le> cst st1 v"
      have "run_iters P rnd (k # ks) st = Inr st2" using it r by simp
      moreover have "vertices (tree st2) = vertices (tree st) @ (ws @ ws')"
        using vs1 vs2 by simp
      moreover have "length (ws @ ws') \<le> length (k # ks)" using l1 l2 by simp
      moreover have "\<forall>v<length (vertices (tree st)). cst st2 v \<le> cst st v"
      proof (intro allI impI)
        fix v assume v: "v < length (vertices (tree st))"
        then have "v < length (vertices (tree st1))" using vs1 by simp
        with c2 have "cst st2 v \<le> cst st1 v" by blast
        also from c1 v have "\<dots> \<le> cst st v" by blast
        finally show "cst st2 v \<le> cst st v" .
      qed
      ultimately show ?thesis using inv2 by blast
    qed
  qed
qed

lemma generate_path_state_cases:
  "(dimension P = 0 \<and> generate_path_state P rnd = Inl ZeroDivisionError) \<or>
   (\<exists>st. generate_path_state P rnd = Inr st \<and> tree_inv P st \<and>
      length (vertices (tree st)) \<le> 1 + nat (max_iter P))"
proof -
  from run_iters_inv [OF init_inv, of P rnd "[0..<nat (max_iter P)]"] show ?thesis
    unfolding generate_path_state_def
    by (elim disjE conjE exE) (auto simp: init_state_def)
qed

lemma generate_path_state_inv:
  "generate_path_state P rnd = Inr st \<Longrightarrow> tree_inv P st"
  using generate_path_state_cases [of P rnd] by auto

subsection \<open>The concrete planners, field by field\<close>

lemma planner_A_simps [simp]:
  "cur_q planner_A = [0]" "goal_q planner_A = [1]" "delta_dis planner_A = 1"
  "epsilon planner_A = 1 / 10" "max_iter planner_A = 1" "gamma_RRTs planner_A = 0"
  "dimension planner_A = 1" "q_limits_lower planner_A = [- 10]"
  "q_limits_upper planner_A = [10]" "collision_free planner_A = (\<lambda>q. True)"
  by (simp_all add: planner_A_def)

lemma planner_B_simps [simp]:
  "cur_q planner_B = [0]" "goal_q planner_B = [100]" "delta_dis planner_B = 10"
  "epsilon planner_B = 1 / 10" "max_iter planner_B = 4" "gamma_RRTs planner_B = 1"
  "dimension planner_B = 1" "q_limits_lower planner_B = [- 200]"
  "q_limits_upper planner_B = [200]" "collision_free planner_B = (\<lambda>q. True)"
  by (simp_all add: planner_B_def)

subsection \<open>Geometry of steering\<close>

lemma length_vsub [simp]: "length (vsub a b) = min (length a) (length b)"
  by (simp add: vsub_def)

lemma length_vadd [simp]: "length (vadd a b) = min (length a) (length b)"
  by (simp add: vadd_def)

lemma vnorm_Nil [simp]: "vnorm [] = 0"
  by (simp add: vnorm_def)

lemma vnorm_sq: "(vnorm v)\<^sup>2 = sum_list (map (\<lambda>x. x\<^sup>2) v)"
  by (simp add: vnorm_def)

lemma vnorm_Cons: "vnorm (x # v) = sqrt (x\<^sup>2 + (vnorm v)\<^sup>2)"
  by (simp add: vnorm_sq) (simp add: vnorm_def)

lemma vnorm_scale: "vnorm (map (\<lambda>x. x * c) v) = \<bar>c\<bar> * vnorm v"
proof -
  have "sum_list (map (\<lambda>x. (x * c)\<^sup>2) v) = c\<^sup>2 * sum_list (map (\<lambda>x. x\<^sup>2) v)"
    by (induction v) (simp_all add: power_mult_distrib algebra_simps)
  then show ?thesis
    by (simp add: vnorm_def o_def real_sqrt_mult)
qed

lemma vnorm_triangle: "length a = length b \<Longrightarrow> vnorm (vadd a b) \<le> vnorm a + vnorm b"
proof (induction a b rule: list_induct2)
  case Nil
  show ?case by (simp add: vadd_def)
next
  case (Cons x a y b)
  have "(vnorm (vadd a b))\<^sup>2 \<le> (vnorm a + vnorm b)\<^sup>2"
    using Cons.IH by (intro power_mono) simp_all
  then have "vnorm (vadd (x # a) (y # b)) \<le> sqrt ((x + y)\<^sup>2 + (vnorm a + vnorm b)\<^sup>2)"
    using vnorm_Cons [of "x + y" "vadd a b"] by (simp add: vadd_def)
  also have "\<dots> \<le> sqrt (x\<^sup>2 + (vnorm a)\<^sup>2) + sqrt (y\<^sup>2 + (vnorm b)\<^sup>2)"
    by (rule real_sqrt_sum_squares_triangle_ineq)
  finally show ?case by (simp add: vnorm_Cons)
qed

lemma vsub_split:
  "length a = length b \<Longrightarrow> length b = length c \<Longrightarrow> vsub c a = vadd (vsub c b) (vsub b a)"
  by (induction a b c rule: list_induct3) (simp_all add: vsub_def vadd_def)

lemma distance_triangle:
  assumes "length a = length b" "length b = length c"
  shows "distance a c \<le> distance a b + distance b c"
proof -
  have "vnorm (vadd (vsub c b) (vsub b a)) \<le> vnorm (vsub c b) + vnorm (vsub b a)"
    using assms by (intro vnorm_triangle) simp
  with vsub_split [OF assms] show ?thesis by (simp add: distance_def)
qed

lemma distance_self [simp]: "distance a a = 0"
proof -
  have "sum_list (map (\<lambda>x. x\<^sup>2) (vsub a a)) = 0"
    by (induction a) (simp_all add: vsub_def)
  then show ?thesis by (simp add: distance_def vnorm_def)
qed

lemma distance_eq_0:
  "length a = length b \<Longrightarrow> distance a b = 0 \<Longrightarrow> a = b"
proof (induction a b rule: list_induct2)
  case Nil
  show ?case by simp
next
  case (Cons x a y b)
  have s: "0 \<le> sum_list (map (\<lambda>x. x\<^sup>2) (vsub b a))" by simp
  from Cons.prems have "(y - x)\<^sup>2 + sum_list (map (\<lambda>x. x\<^sup>2) (vsub b a)) = 0"
    by (simp add: distance_def vnorm_def vsub_def)
  with s have "(y - x)\<^sup>2 = 0" and "sum_list (map (\<lambda>x. x\<^sup>2) (vsub b a)) = 0"
    by (smt (verit) zero_le_power2)+
  then have "x = y" and "distance a b = 0"
    by (simp_all add: distance_def vnorm_def)
  with Cons.IH show ?case by simp
qed

lemma vsub_vadd_cancel: "length w = length a \<Longrightarrow> vsub (vadd a w) a = w"
  by (induction w a rule: list_induct2) (simp_all add: vsub_def vadd_def)

text \<open>Away from the nearest vertex, the steered configuration is the nearest vertex moved by
  the fraction \<open>step / dist\<close> of the way to the sample.\<close>

lemma new_state_segment:
  assumes "nearest_q \<noteq> random_q"
  shows "new_state P nearest_q random_q =
         vadd nearest_q
           (map (\<lambda>x. x * (min (delta_dis P) (distance random_q nearest_q) /
                            distance random_q nearest_q))
                (vsub random_q nearest_q))"
  using assms by (simp add: new_state_def Let_def o_def)

lemma new_state_distance:
  assumes ne: "nearest_q \<noteq> random_q" and len: "length nearest_q = length random_q"
    and d: "0 \<le> delta_dis P"
  shows "distance nearest_q (new_state P nearest_q random_q) =
         min (delta_dis P) (distance nearest_q random_q)"
proof -
  let ?d = "distance random_q nearest_q"
  let ?s = "min (delta_dis P) ?d"
  let ?w = "map (\<lambda>x. x * (?s / ?d)) (vsub random_q nearest_q)"
  from ne len have "?d \<noteq> 0" using distance_eq_0 [of random_q nearest_q] by auto
  then have dpos: "0 < ?d" using distance_nonneg [of random_q nearest_q] by linarith
  from d have s0: "0 \<le> ?s" by simp
  have "length ?w = length nearest_q" using len by simp
  then have "vsub (vadd nearest_q ?w) nearest_q = ?w" by (rule vsub_vadd_cancel)
  then have "distance nearest_q (new_state P nearest_q random_q) = vnorm ?w"
    by (simp add: new_state_segment [OF ne] distance_def)
  also have "\<dots> = \<bar>?s / ?d\<bar> * vnorm (vsub random_q nearest_q)"
    by (rule vnorm_scale)
  also have "vnorm (vsub random_q nearest_q) = distance nearest_q random_q"
    by (simp add: distance_def)
  also have "distance nearest_q random_q = ?d" by (rule distance_commute)
  also have "\<bar>?s / ?d\<bar> * ?d = ?s" using dpos s0 by simp
  finally show ?thesis by (simp add: distance_commute)
qed

lemma length_new_state:
  "length nearest_q = length random_q \<Longrightarrow>
   length (new_state P nearest_q random_q) = length nearest_q"
  by (simp add: new_state_def Let_def)

subsection \<open>Concrete runs\<close>

lemmas eval_defs =
  generate_path_state_def generate_path_def init_state_def iteration_def random_state_def
  nearest_neighbor_def np_argmin_def new_state_def vsub_def vadd_def q_in_limits_def
  find_near_neighbor_def get_new_cost_def reach_to_goal_def rewire_step_def
  add_vertex_def add_edge_def Let_def

lemma find_path_two:
  "find_path P \<lparr>vertices = [a, b], edges = [(0, Suc 0)]\<rparr> = Inr [cur_q P, b, goal_q P]"
proof -
  have "find_path_loop \<lparr>vertices = [a, b], edges = [(0, Suc 0)]\<rparr> (Suc 0) [goal_q P] =
        find_path_loop \<lparr>vertices = [a, b], edges = [(0, Suc 0)]\<rparr> 0 [goal_q P, b]"
    by (subst find_path_loop.simps) simp
  also have "\<dots> = Some (Inr [goal_q P, b])"
    by (subst find_path_loop.simps) simp
  finally show ?thesis
    by (simp add: find_path_def py_pos_def)
qed

lemma run_A:
  "generate_path_state planner_A (\<lambda>k. (0, [0])) =
     Inr \<lparr>tree = \<lparr>vertices = [[0], [1]], edges = [(0, 1)]\<rparr>, cost = [0 \<mapsto> 0, 1 \<mapsto> 1],
          path = Some [[0], [1], [1]]\<rparr>"
  by (simp add: eval_defs find_path_two)

lemma step_A_duplicate:
  "iteration planner_A (init_state planner_A) (1 / 2, [0]) =
     Inr \<lparr>tree = \<lparr>vertices = [[0], [0]], edges = [(0, 1)]\<rparr>, cost = [0 \<mapsto> 0, 1 \<mapsto> 0],
          path = None\<rparr>"
  by (simp add: eval_defs py_pos_def)

lemma run_C:
  "generate_path_state (planner_A\<lparr>delta_dis := 1 / 100, goal_q := [100]\<rparr>) (\<lambda>k. (0, [0])) =
     Inr \<lparr>tree = \<lparr>vertices = [[0], [1 / 100]], edges = [(0, 1)]\<rparr>,
          cost = [0 \<mapsto> 0, 1 \<mapsto> 1 / 100], path = None\<rparr>"
  by (simp add: eval_defs)

subsection \<open>Setting up, and single steps\<close>

lemma ebind_return [simp]: "ebind m Inr = m"
  by (cases m) simp_all

lemma setup_success:
  assumes "setup_start_goal_joint P0 s g arm env = Inr P"
  shows "\<exists>xs ys. (s = PyList xs \<or> s = NdArray xs) \<and> g = NdArray ys \<and>
           \<not> list_all (\<lambda>x. x \<noteq> 0) xs \<and>
           P = P0\<lparr>cur_q := xs, goal_q := ys, dimension := length xs,
                  q_limits_lower := limits_lower env arm,
                  q_limits_upper := limits_upper env arm,
                  collision_free := free_query env\<rparr>"
proof (cases g)
  case PyNone
  with assms show ?thesis
    by (simp add: setup_start_goal_joint_def is_ndarray_def np_array_def check_q_data_def
        np_all_def truthy_def)
next
  case (PyList ys)
  with assms show ?thesis
    by (simp add: setup_start_goal_joint_def is_ndarray_def np_array_def check_q_data_def
        np_all_def truthy_def split: if_splits)
next
  case NdObject
  with assms show ?thesis
    by (cases s)
       (simp_all add: setup_start_goal_joint_def is_ndarray_def np_array_def check_q_data_def
        np_all_def truthy_def split: if_splits)
next
  case (NdArray ys)
  with assms show ?thesis
    by (cases s)
       (auto simp: setup_start_goal_joint_def is_ndarray_def np_array_def check_q_data_def
        np_all_def truthy_def py_len_def ebind_eq_Inr split: if_splits)
qed

lemma check_pairs_find:
  "check_pairs names =
     (case find offending names of
        None \<Rightarrow> Inr ()
      | Some pr \<Rightarrow> Inl (CollisionError (fst pr) (snd pr)))"
  by (induction names rule: check_pairs.induct) (simp_all add: offending_def)

text \<open>One pass of the loop of \<open>rewire\<close> changes the cost of no vertex but \<open>i\<close>, and the cost
  and the parent of \<open>i\<close> only to a strictly lower cost.\<close>

lemma rewire_step_lowers:
  assumes "rewire_step P new_q new_idx st i = Inr st'"
  shows "st' = st \<or>
         (\<exists>c c' j. cost st i = Some c \<and> c' < c \<and>
            st' = st\<lparr>cost := (cost st)(i \<mapsto> c'),
                     tree := (tree st)\<lparr>edges :=
                       (edges (tree st))[j := (new_idx, snd (edges (tree st) ! j))]\<rparr>\<rparr>)"
  using assms
  by (auto simp: rewire_step_def Let_def ebind_eq_Inr split: if_splits option.splits)

subsection \<open>Bounds on logarithms\<close>

lemma ln_less_if_exp: "0 < x \<Longrightarrow> x < exp y \<Longrightarrow> ln x < (y::real)"
proof -
  assume a: "0 < x" and b: "x < exp y"
  from a have "exp (ln x) = x" by (rule exp_ln)
  with b have "exp (ln x) < exp y" by (simp only:)
  then show "ln x < y" by (simp only: exp_less_cancel_iff)
qed

lemma ln_ge_if_exp: "0 < x \<Longrightarrow> exp y \<le> x \<Longrightarrow> (y::real) \<le> ln x"
proof -
  assume a: "0 < x" and b: "exp y \<le> x"
  from a have "exp (ln x) = x" by (rule exp_ln)
  with b have "exp y \<le> exp (ln x)" by (simp only:)
  then show "y \<le> ln x" by (simp only: exp_le_cancel_iff)
qed

lemma exp_sq: "(exp (x::real))\<^sup>2 = exp (x + x)"
  by (simp only: power2_eq_square exp_add)

lemma exp_pow4: "(exp (x::real)) ^ 4 = exp (x + x + (x + x))"
  by (simp only: power4_eq_xxxx exp_add mult.assoc)

lemma ln_2_lt: "ln (2::real) < 1"
proof -
  have "(3 / 2 :: real) \<le> exp (1 / 2)"
    using exp_ge_add_one_self [of "1 / 2 :: real"] by simp
  then have "(3 / 2 :: real)\<^sup>2 \<le> (exp (1 / 2))\<^sup>2"
    by (rule power_mono) simp
  also have "(exp (1 / 2 :: real))\<^sup>2 = exp 1"
    by (simp only: exp_sq) simp
  finally have "(2::real) < exp 1" by (simp add: power2_eq_square)
  then show ?thesis by (rule ln_less_if_exp [rotated]) simp
qed

lemma ln_3_lt: "ln (3::real) < 3 / 2"
proof -
  have "(7 / 4 :: real) \<le> exp (3 / 4)"
    using exp_ge_add_one_self [of "3 / 4 :: real"] by simp
  then have "(7 / 4 :: real)\<^sup>2 \<le> (exp (3 / 4))\<^sup>2"
    by (rule power_mono) simp
  also have "(exp (3 / 4 :: real))\<^sup>2 = exp (3 / 2)"
    by (simp only: exp_sq) simp
  finally have "(3::real) < exp (3 / 2)" by (simp add: power2_eq_square)
  then show ?thesis by (rule ln_less_if_exp [rotated]) simp
qed

lemma ln_4_lt: "ln (4::real) < 9 / 5"
proof -
  have "(29 / 20 :: real) \<le> exp (9 / 20)"
    using exp_ge_add_one_self [of "9 / 20 :: real"] by simp
  then have "(29 / 20 :: real) ^ 4 \<le> exp (9 / 20) ^ 4"
    by (rule power_mono) simp
  also have "exp (9 / 20 :: real) ^ 4 = exp (9 / 5)"
    by (simp only: exp_pow4) simp
  finally have "(4::real) < exp (9 / 5)" by (simp add: power4_eq_xxxx)
  then show ?thesis by (rule ln_less_if_exp [rotated]) simp
qed

lemma ln_4_ge: "(2 / 5 :: real) \<le> ln 4"
proof -
  have "exp (2 / 5 :: real) \<le> 1 + 2 / 5 + (2 / 5)\<^sup>2"
    by (rule exp_bound) simp_all
  then have "exp (2 / 5 :: real) \<le> 4" by (simp add: power2_eq_square)
  then show ?thesis by (rule ln_ge_if_exp [rotated]) simp
qed

lemma ln_5_lt: "ln (5::real) < 2"
proof -
  have "(3 / 2 :: real) \<le> exp (1 / 2)"
    using exp_ge_add_one_self [of "1 / 2 :: real"] by simp
  then have "(3 / 2 :: real) ^ 4 \<le> exp (1 / 2) ^ 4"
    by (rule power_mono) simp
  also have "exp (1 / 2 :: real) ^ 4 = exp 2"
    by (simp only: exp_pow4) simp
  finally have "(5::real) < exp 2" by (simp add: power4_eq_xxxx)
  then show ?thesis by (rule ln_less_if_exp [rotated]) simp
qed

lemma ln_5_ge: "(3 / 2 :: real) \<le> ln 5"
proof -
  have "exp (3 / 16 :: real) \<le> 1 + 3 / 16 + (3 / 16)\<^sup>2"
    by (rule exp_bound) simp_all
  then have a: "exp (3 / 16 :: real) \<le> 313 / 256" by (simp add: power2_eq_square)
  have "(exp (3 / 16 :: real))\<^sup>2 \<le> (313 / 256)\<^sup>2"
    using a by (rule power_mono) simp
  moreover have "(exp (3 / 16 :: real))\<^sup>2 = exp (3 / 8)"
    by (simp only: exp_sq) simp
  ultimately have b: "exp (3 / 8 :: real) \<le> 97969 / 65536"
    by (simp add: power2_eq_square)
  have "(exp (3 / 8 :: real))\<^sup>2 \<le> (97969 / 65536)\<^sup>2"
    using b by (rule power_mono) simp
  moreover have "(exp (3 / 8 :: real))\<^sup>2 = exp (3 / 4)"
    by (simp only: exp_sq) simp
  ultimately have c: "exp (3 / 4 :: real) \<le> 559 / 250"
    by (simp add: power2_eq_square)
  have "(exp (3 / 4 :: real))\<^sup>2 \<le> (559 / 250)\<^sup>2"
    using c by (rule power_mono) simp
  moreover have "(exp (3 / 4 :: real))\<^sup>2 = exp (3 / 2)"
    by (simp only: exp_sq) simp
  ultimately have "exp (3 / 2 :: real) \<le> 5"
    by (simp add: power2_eq_square)
  then show ?thesis by (rule ln_ge_if_exp [rotated]) simp
qed

subsection \<open>A run that rewires\<close>

lemma radius_B:
  "find_near_neighbor planner_B t q =
     Inr (near_loop planner_B q (ln (real (length (vertices t)) + 1) / (real (length (vertices t)) + 1)) 0
            (map (\<lambda>vertex. distance vertex q) (vertices t)) [])"
proof -
  let ?n = "real (length (vertices t)) + 1"
  have p: "1 \<le> ?n" by simp
  then have nn: "0 \<le> ln ?n" by simp
  have "ln ?n \<le> ?n - 1" using p by (intro ln_le_minus_one) simp
  then have "ln ?n \<le> 1 * ?n" by simp
  then have "ln ?n / ?n \<le> 1" using p by (subst pos_divide_le_eq) simp_all
  then have "ln ?n / ?n \<le> 10" by linarith
  then have "min (ln ?n / ?n) 10 = ln ?n / ?n" by (rule min_absorb1)
  moreover have "\<bar>ln ?n / ?n\<bar> = ln ?n / ?n" using nn p by simp
  ultimately show ?thesis
    by (simp add: find_near_neighbor_def Let_def add.commute)
qed

lemmas run_defs =
  iteration_def random_state_def nearest_neighbor_def np_argmin_def new_state_def vsub_def
  vadd_def q_in_limits_def get_new_cost_def reach_to_goal_def rewire_step_def add_vertex_def
  add_edge_def Let_def draws_B_def radius_B py_pos_def

lemma step_B0:
  "iteration planner_B (init_state planner_B) (draws_B 0) =
     Inr \<lparr>tree = \<lparr>vertices = [[0], [23 / 20]], edges = [(0, 1)]\<rparr>,
          cost = [0 \<mapsto> 0, 1 \<mapsto> 23 / 20], path = None\<rparr>"
  using ln_2_lt by (simp add: run_defs init_state_def)

lemma step_B1:
  "iteration planner_B
     \<lparr>tree = \<lparr>vertices = [[0], [23 / 20]], edges = [(0, 1)]\<rparr>,
      cost = [0 \<mapsto> 0, 1 \<mapsto> 23 / 20], path = None\<rparr> (draws_B 1) =
     Inr \<lparr>tree = \<lparr>vertices = [[0], [23 / 20], [3 / 5]], edges = [(0, 1), (1, 2)]\<rparr>,
          cost = [0 \<mapsto> 0, 1 \<mapsto> 23 / 20, 2 \<mapsto> 17 / 10], path = None\<rparr>"
  using ln_3_lt by (simp add: run_defs; auto simp: fun_eq_iff)

lemma step_B2:
  "iteration planner_B
     \<lparr>tree = \<lparr>vertices = [[0], [23 / 20], [3 / 5]], edges = [(0, 1), (1, 2)]\<rparr>,
      cost = [0 \<mapsto> 0, 1 \<mapsto> 23 / 20, 2 \<mapsto> 17 / 10], path = None\<rparr> (draws_B 2) =
     Inr \<lparr>tree = \<lparr>vertices = [[0], [23 / 20], [3 / 5], [7 / 10]],
                  edges = [(0, 1), (1, 2), (2, 3)]\<rparr>,
          cost = [0 \<mapsto> 0, 1 \<mapsto> 23 / 20, 2 \<mapsto> 17 / 10, 3 \<mapsto> 9 / 5], path = None\<rparr>"
  using ln_4_lt ln_4_ge by (simp add: run_defs; auto simp: fun_eq_iff)

lemma step_B3:
  "iteration planner_B
     \<lparr>tree = \<lparr>vertices = [[0], [23 / 20], [3 / 5], [7 / 10]],
              edges = [(0, 1), (1, 2), (2, 3)]\<rparr>,
      cost = [0 \<mapsto> 0, 1 \<mapsto> 23 / 20, 2 \<mapsto> 17 / 10, 3 \<mapsto> 9 / 5], path = None\<rparr> (draws_B 3) =
     Inr \<lparr>tree = \<lparr>vertices = [[0], [23 / 20], [3 / 5], [7 / 10], [3 / 10]],
                  edges = [(0, 1), (4, 2), (2, 3), (0, 4)]\<rparr>,
          cost = [0 \<mapsto> 0, 1 \<mapsto> 23 / 20, 2 \<mapsto> 3 / 5, 3 \<mapsto> 9 / 5, 4 \<mapsto> 3 / 10],
          path = None\<rparr>"
  using ln_5_lt ln_5_ge by (simp add: run_defs; auto simp: fun_eq_iff)

lemma run_B3:
  "run_iters planner_B draws_B [0..<3] (init_state planner_B) =
     Inr \<lparr>tree = \<lparr>vertices = [[0], [23 / 20], [3 / 5], [7 / 10]],
                  edges = [(0, 1), (1, 2), (2, 3)]\<rparr>,
          cost = [0 \<mapsto> 0, 1 \<mapsto> 23 / 20, 2 \<mapsto> 17 / 10, 3 \<mapsto> 9 / 5], path = None\<rparr>"
proof -
  have "[0..<3] = [0, 1, 2::nat]" by (simp add: upt_rec)
  then show ?thesis
    by (simp only: run_iters.simps step_B0 step_B1 step_B2 ebind_Inr)
qed

lemma run_B4:
  "run_iters planner_B draws_B [0..<4] (init_state planner_B) =
     Inr \<lparr>tree = \<lparr>vertices = [[0], [23 / 20], [3 / 5], [7 / 10], [3 / 10]],
                  edges = [(0, 1), (4, 2), (2, 3), (0, 4)]\<rparr>,
          cost = [0 \<mapsto> 0, 1 \<mapsto> 23 / 20, 2 \<mapsto> 3 / 5, 3 \<mapsto> 9 / 5, 4 \<mapsto> 3 / 10],
          path = None\<rparr>"
proof -
  have "[0..<4] = [0, 1, 2, 3::nat]" by (simp add: upt_rec)
  then show ?thesis
    by (simp only: run_iters.simps step_B0 step_B1 step_B2 step_B3 ebind_Inr)
qed

subsection \<open>The initial collision check\<close>

text \<open>\<open>_check_init_collision\<close> raises a \<open>CollisionError\<close> carrying the first reported pair
  whose names do not both contain \<open>obstacle\<close>; pairs of two obstacles are passed over, and
  without such a pair or without a collision nothing is raised.\<close>

lemma check_init_collision_find:
  "check_init_collision rep =
     (if fst rep
      then (case find offending (snd rep) of
              None \<Rightarrow> Inr ()
            | Some pr \<Rightarrow> Inl (CollisionError (fst pr) (snd pr)))
      else Inr ())"
  by (simp add: check_init_collision_def Let_def check_pairs_find)

text \<open>In \<open>setup_start_goal_joint\<close> the collision check is reached only after
  \<open>_check_q_data\<close>, which lets through a start array with a zero component.\<close>

lemma setup_collision_after_data_check:
  assumes "fst (init_report env)"
    and "find offending (snd (init_report env)) = Some (name1, name2)"
    and "\<not> list_all (\<lambda>x. x \<noteq> 0) c"
  shows "setup_start_goal_joint P (NdArray c) (NdArray g) arm env =
           Inl (CollisionError name1 name2)"
proof -
  from assms(1,2) have "check_init_collision (init_report env) = Inl (CollisionError name1 name2)"
    by (simp add: check_init_collision_find)
  with assms(3) show ?thesis
    by (simp add: setup_start_goal_joint_def is_ndarray_def check_q_data_def np_all_def
        truthy_def py_len_def)
qed

lemma setup_data_check_first:
  assumes "list_all (\<lambda>x. x \<noteq> 0) c"
  shows "setup_start_goal_joint P (NdArray c) (NdArray g) arm env = Inl NotFoundError"
  using assms
  by (simp add: setup_start_goal_joint_def is_ndarray_def check_q_data_def np_all_def
      truthy_def)

subsection \<open>Recorded costs and the length of the way to the root\<close>

lemma path_length_le:
  "shape (tree st) \<Longrightarrow> cost_inv st \<Longrightarrow> ancestor (tree st) n v = Some a \<Longrightarrow>
   cst st a + path_length (tree st) n v \<le> cst st v"
proof (induction n arbitrary: v)
  case 0
  then show ?case by simp
next
  case (Suc n)
  from Suc.prems(3) obtain p where p: "parent (tree st) v = Some p"
    "ancestor (tree st) n p = Some a"
    by (auto split: option.splits)
  have "cst st a + path_length (tree st) n p \<le> cst st p"
    using Suc.IH [OF Suc.prems(1,2) p(2)] .
  moreover have "cst st p + distance (vertices (tree st) ! p) (vertices (tree st) ! v) \<le> cst st v"
    by (rule parent_cost_le [OF Suc.prems(1,2) p(1)])
  moreover have "path_length (tree st) (Suc n) v =
                 distance (vertices (tree st) ! p) (vertices (tree st) ! v) + path_length (tree st) n p"
    using p(1) by simp
  ultimately show ?case by linarith
qed

text \<open>What one pass of the loop of \<open>rewire\<close> leaves behind: the cost of the new vertex as it
  was, and every vertex either with the parent and cost it had or with the new vertex as
  parent and the cost of the way through it.\<close>

lemma rewire_step_links:
  assumes inv: "tree_inv P st"
    and new: "new_idx < length (vertices (tree st))"
    and i: "i < length (vertices (tree st))"
    and q: "new_q = vertices (tree st) ! new_idx"
    and r: "rewire_step P new_q new_idx st i = Inr st'"
  shows "cost st' new_idx = cost st new_idx"
    and "(parent (tree st') v = parent (tree st) v \<and> cost st' v = cost st v) \<or>
         (parent (tree st') v = Some new_idx \<and>
          cst st' v = cst st new_idx +
            distance (vertices (tree st) ! new_idx) (vertices (tree st) ! v))"
proof -
  let ?c = "cst st new_idx + distance (vertices (tree st) ! new_idx) (vertices (tree st) ! i)"
  let ?st1 = "st\<lparr>cost := (cost st)(i \<mapsto> ?c),
                  tree := (tree st)\<lparr>edges := (edges (tree st))[i - 1 := (new_idx, i)]\<rparr>\<rparr>"
  have both: "cost st' new_idx = cost st new_idx \<and>
        ((parent (tree st') v = parent (tree st) v \<and> cost st' v = cost st v) \<or>
         (parent (tree st') v = Some new_idx \<and>
          cst st' v = cst st new_idx +
            distance (vertices (tree st) ! new_idx) (vertices (tree st) ! v)))"
  proof (cases "collision_free P (vertices (tree st) ! i) \<and> ?c < cst st i")
    case False
    then have "rewire_step P new_q new_idx st i = Inr st"
      using rewire_step_eq [OF inv new i q] by (simp only: if_False)
    with r have "st' = st" by simp
    then show ?thesis by simp
  next
    case True
    then have lt: "?c < cst st i" by simp
    have "rewire_step P new_q new_idx st i = Inr ?st1"
      using rewire_step_eq [OF inv new i q] True by simp
    with r have st': "st' = ?st1" by simp
    from rewired_inv(2,3) [OF inv new i lt] have ipos: "0 < i" and ne: "i \<noteq> new_idx" by blast+
    from inv have sh: "shape (tree st)" by (simp add: tree_inv_def)
    from sh i have ile: "i \<le> length (edges (tree st))" by (simp add: shape_def)
    have pa: "parent (tree st') v = (if v = i then Some new_idx else parent (tree st) v)"
      unfolding st' using parent_rewired [OF ipos ile, where new_idx = new_idx and v = v] by simp
    have co: "cost st' = (cost st)(i \<mapsto> ?c)" unfolding st' by simp
    show ?thesis
    proof (cases "v = i")
      case True
      with pa co ne show ?thesis by (simp add: cst_def)
    next
      case False
      with pa co ne show ?thesis by simp
    qed
  qed
  from both show "cost st' new_idx = cost st new_idx" by blast
  from both show "(parent (tree st') v = parent (tree st) v \<and> cost st' v = cost st v) \<or>
         (parent (tree st') v = Some new_idx \<and>
          cst st' v = cst st new_idx +
            distance (vertices (tree st) ! new_idx) (vertices (tree st) ! v))" by blast
qed

lemma rewire_links:
  "tree_inv P st \<Longrightarrow> new_idx < length (vertices (tree st)) \<Longrightarrow>
   new_q = vertices (tree st) ! new_idx \<Longrightarrow>
   \<forall>i\<in>set nbrs. i < length (vertices (tree st)) \<Longrightarrow>
   rewire P st nbrs new_q new_idx = Inr st' \<Longrightarrow>
   cost st' new_idx = cost st new_idx \<and>
   (\<forall>v. (parent (tree st') v = parent (tree st) v \<and> cost st' v = cost st v) \<or>
        (parent (tree st') v = Some new_idx \<and>
         cst st' v = cst st new_idx +
           distance (vertices (tree st) ! new_idx) (vertices (tree st) ! v)))"
proof (induction nbrs arbitrary: st)
  case Nil
  then show ?case by simp
next
  case (Cons i nbrs)
  from Cons.prems(4) have i: "i < length (vertices (tree st))" by simp
  from rewire_step_inv [OF Cons.prems(1,2) i Cons.prems(3)]
  obtain st1 where s1: "rewire_step P new_q new_idx st i = Inr st1" "tree_inv P st1"
    "vertices (tree st1) = vertices (tree st)"
    by blast
  from Cons.prems(5) s1(1) have r1: "rewire P st1 nbrs new_q new_idx = Inr st'" by simp
  note l1 = rewire_step_links [OF Cons.prems(1,2) i Cons.prems(3) s1(1)]
  have ih: "cost st' new_idx = cost st1 new_idx \<and>
   (\<forall>v. (parent (tree st') v = parent (tree st1) v \<and> cost st' v = cost st1 v) \<or>
        (parent (tree st') v = Some new_idx \<and>
         cst st' v = cst st1 new_idx +
           distance (vertices (tree st1) ! new_idx) (vertices (tree st1) ! v)))"
    using Cons.prems s1 r1 by (intro Cons.IH) simp_all
  have cn: "cost st' new_idx = cost st new_idx" using ih l1(1) by simp
  have c1: "cst st1 new_idx = cst st new_idx" using l1(1) by (simp add: cst_def)
  have "\<forall>v. (parent (tree st') v = parent (tree st) v \<and> cost st' v = cost st v) \<or>
        (parent (tree st') v = Some new_idx \<and>
         cst st' v = cst st new_idx +
           distance (vertices (tree st) ! new_idx) (vertices (tree st) ! v))"
  proof
    fix v
    from ih have a: "(parent (tree st') v = parent (tree st1) v \<and> cost st' v = cost st1 v) \<or>
        (parent (tree st') v = Some new_idx \<and>
         cst st' v = cst st new_idx +
           distance (vertices (tree st) ! new_idx) (vertices (tree st) ! v))"
      by (simp add: c1 s1(3))
    from l1(2) [of v] have b: "(parent (tree st1) v = parent (tree st) v \<and> cost st1 v = cost st v) \<or>
         (parent (tree st1) v = Some new_idx \<and>
          cst st1 v = cst st new_idx +
            distance (vertices (tree st) ! new_idx) (vertices (tree st) ! v))" .
    from a b show "(parent (tree st') v = parent (tree st) v \<and> cost st' v = cost st v) \<or>
        (parent (tree st') v = Some new_idx \<and>
         cst st' v = cst st new_idx +
           distance (vertices (tree st) ! new_idx) (vertices (tree st) ! v))"
      by (auto simp: cst_def)
  qed
  with cn show ?case by blast
qed

text \<open>After an iteration every vertex either has the parent and the cost it had before, or
  its cost is the cost of its parent plus the length of the link.\<close>

lemma iteration_links:
  assumes inv: "tree_inv P st" and it: "iteration P st d = Inr st'"
  shows "(parent (tree st') v = parent (tree st) v \<and> cost st' v = cost st v) \<or>
         (\<exists>p. parent (tree st') v = Some p \<and>
              cst st' v = cst st' p +
                distance (vertices (tree st') ! p) (vertices (tree st') ! v))"
proof -
  let ?t = "tree st" and ?vs = "vertices (tree st)" and ?n = "length (vertices (tree st))"
  let ?rq = "random_state P d"
  from inv have sh: "shape ?t" and ci: "cost_inv st" by (simp_all add: tree_inv_def)
  from shape_len [OF sh] have "?vs \<noteq> []" by auto
  from nearest_neighbor_ok [OF this] obtain ni where ni: "ni < ?n"
    and nn: "nearest_neighbor P ?rq ?t = Inr (?vs ! ni, ni)" by blast
  let ?nq = "new_state P (?vs ! ni) ?rq"
  show ?thesis
  proof (cases "collision_free P ?nq \<and> q_in_limits P ?nq")
    case False
    then have "iteration P st d = Inr st"
      by (rule rejected_unchanged [OF nn])
    with it show ?thesis by simp
  next
    case valid: True
    from find_near_neighbor_cases [of P ?t ?nq] show ?thesis
    proof (elim disjE conjE exE)
      assume "dimension P = 0" and "find_near_neighbor P ?t ?nq = Inl ZeroDivisionError"
      then have "iteration P st d = Inl ZeroDivisionError"
        using nn valid by (simp add: iteration_def Let_def)
      with it show ?thesis by simp
    next
      fix nbrs assume fnn: "find_near_neighbor P ?t ?nq = Inr nbrs"
      from find_near_neighbor_lt [OF fnn] have nb: "\<forall>i\<in>set nbrs. i < ?n" .
      let ?c0 = "cst st ni + distance (?vs ! ni) ?nq"
      have gnc: "get_new_cost st ni (?vs ! ni) ?nq = Inr ?c0"
        by (rule get_new_cost_ok [OF ci ni])
      from get_minimum_cost_ok [OF ci nb ni refl, where new_q = ?nq and P = P]
      obtain c p where gmc: "get_minimum_cost P st nbrs ?nq ?c0 ni = Inr (c, p)"
        and p: "p < ?n" and c: "c = cst st p + distance (?vs ! p) ?nq"
        by blast
      let ?st2 = "st\<lparr>tree := add_edge (add_vertex ?t ?nq) (p, ?n), cost := (cost st)(?n \<mapsto> c)\<rparr>"
      have inv2: "tree_inv P ?st2" by (rule inserted_inv [OF inv p c])
      have vs2: "vertices (tree ?st2) = ?vs @ [?nq]"
        by (simp add: add_edge_def add_vertex_def)
      have n2: "?n < length (vertices (tree ?st2))" by (simp add: vs2)
      have q2: "?nq = vertices (tree ?st2) ! ?n" by (simp add: vs2)
      have nb2: "\<forall>i\<in>set nbrs. i < length (vertices (tree ?st2))"
        using nb by (simp add: vs2 less_Suc_eq)
      from rewire_inv [OF inv2 n2 q2 nb2]
      obtain st3 where rw: "rewire P ?st2 nbrs ?nq ?n = Inr st3"
        and vs3: "vertices (tree st3) = ?vs @ [?nq]"
        and c3: "\<forall>v. cst st3 v \<le> cst ?st2 v"
        using vs2 by auto
      have itr: "iteration P st d =
                (if reach_to_goal P ?nq
                 then ebind (find_path P (tree st3)) (\<lambda>pth. Inr (st3\<lparr>path := Some pth\<rparr>))
                 else Inr st3)"
        using nn valid fnn gnc gmc rw by (simp add: iteration_def Let_def)
      have same: "tree st' = tree st3 \<and> cost st' = cost st3"
      proof (cases "reach_to_goal P ?nq")
        case False
        with itr it show ?thesis by simp
      next
        case True
        with itr it have "ebind (find_path P (tree st3)) (\<lambda>pth. Inr (st3\<lparr>path := Some pth\<rparr>)) =
                          Inr st'" by simp
        then obtain pth where "st' = st3\<lparr>path := Some pth\<rparr>"
          unfolding ebind_eq_Inr by auto
        then show ?thesis by simp
      qed
      then have t': "tree st' = tree st3" and cst': "\<And>w. cst st' w = cst st3 w"
        and co': "cost st' = cost st3"
        by (simp_all add: cst_def)
      from rewire_links [OF inv2 n2 q2 nb2 rw]
      have cn: "cost st3 ?n = cost ?st2 ?n"
        and lk: "\<And>w. (parent (tree st3) w = parent (tree ?st2) w \<and> cost st3 w = cost ?st2 w) \<or>
          (parent (tree st3) w = Some ?n \<and>
           cst st3 w = cst ?st2 ?n +
             distance (vertices (tree ?st2) ! ?n) (vertices (tree ?st2) ! w))"
        by blast+
      have cn3: "cst st3 ?n = c" using cn by (simp add: cst_def)
      have c2n: "cst ?st2 ?n = c" by (simp add: cst_def)
      have pa2: "\<And>w. parent (tree ?st2) w = (if w = ?n then Some p else parent ?t w)"
        using parent_inserted [OF sh] by simp
      have co2: "\<And>w. cost ?st2 w = (if w = ?n then Some c else cost st w)" by simp
      have pn: "p \<noteq> ?n" using p by simp
      have cp: "cst st3 p = cst st p"
      proof -
        from lk [of p] show ?thesis
        proof
          assume "parent (tree st3) p = parent (tree ?st2) p \<and> cost st3 p = cost ?st2 p"
          with pn show ?thesis by (simp add: cst_def)
        next
          assume a: "parent (tree st3) p = Some ?n \<and>
            cst st3 p = cst ?st2 ?n +
              distance (vertices (tree ?st2) ! ?n) (vertices (tree ?st2) ! p)"
          have "vertices (tree ?st2) ! p = ?vs ! p" using p by (simp add: vs2 nth_append)
          with a c2n q2 have e: "cst st3 p = c + distance ?nq (?vs ! p)" by simp
          from c3 have "cst st3 p \<le> cst ?st2 p" by blast
          also have "cst ?st2 p = cst st p" using pn by (simp add: cst_def)
          finally have le: "cst st3 p \<le> cst st p" .
          have d: "distance ?nq (?vs ! p) = distance (?vs ! p) ?nq" by (rule distance_commute)
          have "0 \<le> distance (?vs ! p) ?nq" by simp
          with e le c d show ?thesis by linarith
        qed
      qed
      from lk [of v] show ?thesis
      proof
        assume a: "parent (tree st3) v = Some ?n \<and>
            cst st3 v = cst ?st2 ?n +
              distance (vertices (tree ?st2) ! ?n) (vertices (tree ?st2) ! v)"
        then have "parent (tree st') v = Some ?n \<and>
              cst st' v = cst st' ?n +
                distance (vertices (tree st') ! ?n) (vertices (tree st') ! v)"
          by (simp add: t' cst' cn3 c2n vs3 vs2)
        then show ?thesis by blast
      next
        assume a: "parent (tree st3) v = parent (tree ?st2) v \<and> cost st3 v = cost ?st2 v"
        show ?thesis
        proof (cases "v = ?n")
          case False
          with a pa2 [of v] co2 [of v] show ?thesis by (simp add: t' co')
        next
          case True
          with a pa2 [of v] have pp: "parent (tree st') v = Some p" by (simp add: t')
          have "vertices (tree st') ! p = ?vs ! p" using p by (simp add: t' vs3 nth_append)
          moreover have "vertices (tree st') ! v = ?nq" using True by (simp add: t' vs3)
          ultimately have "cst st' v = cst st' p +
                distance (vertices (tree st') ! p) (vertices (tree st') ! v)"
            using True cn3 cp c by (simp add: cst')
          with pp show ?thesis by blast
        qed
      qed
    qed
  qed
qed

subsection \<open>The states of the rewiring run\<close>

lemma run_state_B3:
  "run_iters planner_B draws_B [0..<3] (init_state planner_B) = Inr state_B3"
  by (simp only: run_B3 state_B3_def)

lemma run_state_B4:
  "run_iters planner_B draws_B [0..<4] (init_state planner_B) = Inr state_B4"
  by (simp only: run_B4 state_B4_def)

lemma step_state_B4: "iteration planner_B state_B3 (draws_B 3) = Inr state_B4"
  by (simp only: step_B3 state_B3_def state_B4_def)

lemma state_B3_simps:
  "cost state_B3 0 = Some 0" "cost state_B3 2 = Some (17 / 10)" "cost state_B3 3 = Some (9 / 5)"
  "parent (tree state_B3) 2 = Some 1" "parent (tree state_B3) 3 = Some 2"
  "ancestor (tree state_B3) 3 3 = Some 0" "path_length (tree state_B3) 3 3 = 9 / 5"
  "distance (vertices (tree state_B3) ! 2) (vertices (tree state_B3) ! 3) = 1 / 10"
  "length (vertices (tree state_B3)) = 4"
  by (simp_all add: state_B3_def parent_def eval_nat_numeral)

lemma state_B4_simps:
  "cost state_B4 2 = Some (3 / 5)" "cost state_B4 4 = Some (3 / 10)"
  "parent (tree state_B4) 2 = Some 4"
  "distance (vertices (tree state_B4) ! 4) (vertices (tree state_B4) ! 2) = 3 / 10"
  "cost state_B4 3 = Some (9 / 5)" "parent (tree state_B4) 3 = Some 2"
  "distance (vertices (tree state_B4) ! 2) (vertices (tree state_B4) ! 3) = 1 / 10"
  "ancestor (tree state_B4) 3 3 = Some 0" "path_length (tree state_B4) 3 3 = 7 / 10"
  by (simp_all add: state_B4_def parent_def eval_nat_numeral)

section \<open>The claims\<close>

subsection \<open>Rejected candidates\<close>

text \<open>
  Claim C6. In an iteration of \<open>generate_path\<close> in which the steered candidate fails the
  component-wise joint-limit check or the collision check, nothing is mutated: the state after
  the iteration (vertex sequence, edge list, cost map, and the recorded path) is the state
  before it.
\<close>

theorem rejected_candidate_no_mutation:
  "nearest_neighbor P (random_state P d) (tree st) = Inr (nearest_q, nearest_idx) \<Longrightarrow>
   \<not> (collision_free P (new_state P nearest_q (random_state P d)) \<and>
      q_in_limits P (new_state P nearest_q (random_state P d))) \<Longrightarrow>
   iteration P st d = Inr st"
  by (auto simp: iteration_def Let_def)

theorem rejected_candidate_no_mutation_witness:
  "nearest_neighbor (planner_A\<lparr>q_limits_upper := [1 / 2]\<rparr>)
     (random_state (planner_A\<lparr>q_limits_upper := [1 / 2]\<rparr>) (1 / 2, [5]))
     (tree (init_state (planner_A\<lparr>q_limits_upper := [1 / 2]\<rparr>))) = Inr ([0], 0) \<and>
   \<not> (collision_free (planner_A\<lparr>q_limits_upper := [1 / 2]\<rparr>)
        (new_state (planner_A\<lparr>q_limits_upper := [1 / 2]\<rparr>) [0]
           (random_state (planner_A\<lparr>q_limits_upper := [1 / 2]\<rparr>) (1 / 2, [5]))) \<and>
      q_in_limits (planner_A\<lparr>q_limits_upper := [1 / 2]\<rparr>)
        (new_state (planner_A\<lparr>q_limits_upper := [1 / 2]\<rparr>) [0]
           (random_state (planner_A\<lparr>q_limits_upper := [1 / 2]\<rparr>) (1 / 2, [5])))) \<and>
   iteration (planner_A\<lparr>q_limits_upper := [1 / 2]\<rparr>)
     (init_state (planner_A\<lparr>q_limits_upper := [1 / 2]\<rparr>)) (1 / 2, [5]) =
   Inr (init_state (planner_A\<lparr>q_limits_upper := [1 / 2]\<rparr>))"
proof -
  let ?P = "planner_A\<lparr>q_limits_upper := [1 / 2]\<rparr>"
  have rq: "random_state ?P (1 / 2, [5]) = [5]"
    by (simp add: random_state_def)
  have nn: "nearest_neighbor ?P (random_state ?P (1 / 2, [5])) (tree (init_state ?P)) = Inr ([0], 0)"
    by (simp add: rq nearest_neighbor_def init_state_def np_argmin_def)
  have ns: "new_state ?P [0] [5] = [1]"
    by (simp add: new_state_def vsub_def vadd_def)
  have rej: "\<not> (collision_free ?P (new_state ?P [0] (random_state ?P (1 / 2, [5]))) \<and>
               q_in_limits ?P (new_state ?P [0] (random_state ?P (1 / 2, [5]))))"
    by (simp add: rq ns q_in_limits_def)
  from rejected_candidate_no_mutation [OF nn rej] nn rej show ?thesis by blast
qed

subsection \<open>The neighbor set\<close>

text \<open>
  Claim C7. For a planner of positive dimension, the neighbor set computed for a new
  configuration \<open>q\<close> is the list, in increasing order, of the indices of the tree's vertices
  whose distance to \<open>q\<close> is at most \<open>min(gamma * (ln(n+1)/(n+1))^(1/DOF), delta)\<close>, where \<open>n\<close>
  is the number of vertices, and for which \<open>q\<close> itself is collision-free.
\<close>

theorem near_neighbors_exact:
  "0 < dimension P \<Longrightarrow> find_near_neighbor P t q = Inr (spec_neighbors P t q)"
proof -
  assume dim: "0 < dimension P"
  let ?r = "spec_radius P (length (vertices t))"
  let ?ds = "map (\<lambda>vertex. distance vertex q) (vertices t)"
  have "filter (\<lambda>j. ?ds ! j \<le> ?r \<and> collision_free P q) [0..<length (vertices t)] =
        spec_neighbors P t q"
    unfolding spec_neighbors_def by (rule filter_cong) auto
  moreover have "find_near_neighbor P t q = Inr (near_loop P q ?r 0 ?ds [])"
    using dim by (simp add: find_near_neighbor_def spec_radius_def Let_def add.commute)
  ultimately show ?thesis
    by (simp add: near_loop_eq)
qed

theorem near_neighbors_exact_witness:
  "0 < dimension planner_A \<and>
   find_near_neighbor planner_A \<lparr>vertices = [[0], [1], [0]], edges = [(0, 1), (0, 2)]\<rparr> [0] =
     Inr (spec_neighbors planner_A \<lparr>vertices = [[0], [1], [0]], edges = [(0, 1), (0, 2)]\<rparr> [0]) \<and>
   spec_neighbors planner_A \<lparr>vertices = [[0], [1], [0]], edges = [(0, 1), (0, 2)]\<rparr> [0] = [0, 2]"
proof -
  have d: "0 < dimension planner_A" by simp
  have "spec_neighbors planner_A \<lparr>vertices = [[0], [1], [0]], edges = [(0, 1), (0, 2)]\<rparr> [0] = [0, 2]"
    by (simp add: spec_neighbors_def spec_radius_def upt_rec)
  with near_neighbors_exact [OF d] d show ?thesis by blast
qed

subsection \<open>Tree validity\<close>

text \<open>
  Claim C1. After the initialisation and after every iteration of \<open>generate_path\<close> (the state
  after \<open>j\<close> iterations, for every \<open>j\<close>, the last one included), the tree is a valid rooted
  tree: there is one edge less than there are vertices, the edge at position \<open>j\<close> is the parent
  link of vertex \<open>j + 1\<close>, no edge has vertex \<open>0\<close> as its child, and from every vertex the
  parent links lead to vertex \<open>0\<close> in at most as many steps as there are vertices, so that
  rewiring has created no cycle. In such a state, rewiring vertex \<open>0\<close> through any vertex
  changes nothing. The only way in which the loop can stop early is the division by the
  dimension when that is \<open>0\<close>.
\<close>

theorem tree_validity:
  "(\<exists>st. run_iters P rnd [0..<j] (init_state P) = Inr st \<and> tree_valid (tree st) \<and>
      (\<forall>new_idx<length (vertices (tree st)).
          rewire_step P (vertices (tree st) ! new_idx) new_idx st 0 = Inr st)) \<or>
   (dimension P = 0 \<and> run_iters P rnd [0..<j] (init_state P) = Inl ZeroDivisionError)"
proof -
  from run_iters_inv [OF init_inv, of P rnd "[0..<j]"] show ?thesis
  proof (elim disjE conjE exE)
    assume "dimension P = 0" "run_iters P rnd [0..<j] (init_state P) = Inl ZeroDivisionError"
    then show ?thesis by simp
  next
    fix st
    assume r: "run_iters P rnd [0..<j] (init_state P) = Inr st" and inv: "tree_inv P st"
    from inv have sh: "shape (tree st)" and re: "reach (tree st)" and ci: "cost_inv st"
      by (simp_all add: tree_inv_def)
    have "\<forall>new_idx<length (vertices (tree st)).
            rewire_step P (vertices (tree st) ! new_idx) new_idx st 0 = Inr st"
    proof (intro allI impI)
      fix new_idx assume n: "new_idx < length (vertices (tree st))"
      then have z: "0 < length (vertices (tree st))" by (cases "vertices (tree st)") auto
      have "0 \<le> cst st new_idx" by (rule cost_nonneg [OF sh re ci n])
      then have "\<not> cst st new_idx +
                   distance (vertices (tree st) ! new_idx) (vertices (tree st) ! 0) < cst st 0"
        using cst_0 [OF ci] distance_nonneg [of "vertices (tree st) ! new_idx" "vertices (tree st) ! 0"]
        by linarith
      with rewire_step_eq [OF inv n z refl]
      show "rewire_step P (vertices (tree st) ! new_idx) new_idx st 0 = Inr st"
        by simp
    qed
    with r tree_inv_valid [OF inv] show ?thesis by blast
  qed
qed

theorem tree_validity_witness:
  "run_iters planner_A (\<lambda>k. (0, [0])) [0..<1] (init_state planner_A) =
     Inr \<lparr>tree = \<lparr>vertices = [[0], [1]], edges = [(0, 1)]\<rparr>, cost = [0 \<mapsto> 0, 1 \<mapsto> 1],
          path = Some [[0], [1], [1]]\<rparr> \<and>
   tree_valid \<lparr>vertices = [[0], [1]], edges = [(0, 1)]\<rparr>"
proof -
  have r: "run_iters planner_A (\<lambda>k. (0, [0])) [0..<1] (init_state planner_A) =
     Inr \<lparr>tree = \<lparr>vertices = [[0], [1]], edges = [(0, 1)]\<rparr>, cost = [0 \<mapsto> 0, 1 \<mapsto> 1],
          path = Some [[0], [1], [1]]\<rparr>"
    using run_A by (simp add: generate_path_state_def)
  with tree_validity [of planner_A "\<lambda>k. (0, [0])" 1] show ?thesis by auto
qed


subsection \<open>Recorded costs never grow\<close>

text \<open>
  Claim C8. The recorded cost of a vertex never increases during a run of \<open>generate_path\<close>:
  for the state after \<open>j\<close> iterations and the state after \<open>k \<ge> j\<close> iterations, every vertex
  of the former has a recorded cost in both, and the later one is not larger. (The only
  writes to the cost of an existing vertex are those of \<open>rewire\<close>, and lemma
  \<open>rewire_step_lowers\<close> shows that each of them strictly lowers it.)
\<close>

theorem cost_non_increasing:
  assumes "j \<le> k"
    and "run_iters P rnd [0..<j] (init_state P) = Inr s1"
    and "run_iters P rnd [0..<k] (init_state P) = Inr s2"
    and "v < length (vertices (tree s1))"
  shows "\<exists>c1 c2. cost s1 v = Some c1 \<and> cost s2 v = Some c2 \<and> c2 \<le> c1"
proof -
  from assms(1) have "[0..<k] = [0..<j] @ [j..<k]"
    using upt_add_eq_append [of 0 j "k - j"] by simp
  with assms(2,3) have r: "run_iters P rnd [j..<k] s1 = Inr s2"
    by (simp add: run_iters_append)
  from run_iters_inv [OF init_inv, of P rnd "[0..<j]"] assms(2)
  have inv1: "tree_inv P s1" by auto
  from run_iters_inv [OF inv1, of rnd "[j..<k]"] r
  obtain ws where inv2: "tree_inv P s2"
    and vs: "vertices (tree s2) = vertices (tree s1) @ ws"
    and le: "\<forall>v<length (vertices (tree s1)). cst s2 v \<le> cst s1 v"
    by auto
  from inv1 inv2 have ci1: "cost_inv s1" and ci2: "cost_inv s2"
    by (simp_all add: tree_inv_def)
  from assms(4) vs have v2: "v < length (vertices (tree s2))" by simp
  from cost_Some [OF ci1 assms(4)] cost_Some [OF ci2 v2] le assms(4)
  show ?thesis by blast
qed

text \<open>A run in which rewiring writes: the fourth iteration of \<open>planner_B\<close> inserts vertex
  \<open>4\<close> at \<open>3 / 10\<close> and gives vertex \<open>2\<close> the parent \<open>4\<close> in place of \<open>1\<close>, which lowers its
  recorded cost from \<open>17 / 10\<close> to \<open>3 / 5\<close>.\<close>

theorem cost_non_increasing_witness:
  "(3::nat) \<le> 4 \<and>
   run_iters planner_B draws_B [0..<3] (init_state planner_B) = Inr state_B3 \<and>
   run_iters planner_B draws_B [0..<4] (init_state planner_B) = Inr state_B4 \<and>
   2 < length (vertices (tree state_B3)) \<and>
   parent (tree state_B3) 2 = Some 1 \<and>
   parent (tree state_B4) 2 = Some 4 \<and>
   cost state_B3 2 = Some (17 / 10) \<and>
   cost state_B4 2 = Some (3 / 5) \<and>
   (\<exists>c1 c2. cost state_B3 2 = Some c1 \<and> cost state_B4 2 = Some c2 \<and> c2 \<le> c1)"
proof -
  have a: "(3::nat) \<le> 4" by simp
  have d: "2 < length (vertices (tree state_B3))" by (simp add: state_B3_simps)
  from cost_non_increasing [OF a run_state_B3 run_state_B4 d] a run_state_B3 run_state_B4 d
    state_B3_simps(2,4) state_B4_simps(1,3)
  show ?thesis by blast
qed

subsection \<open>Steering\<close>

text \<open>
  Claim C3, as amended. For a non-negative step size \<open>delta\<close> and a sample of the dimension of
  the nearest vertex: if the sample equals the nearest vertex, the new configuration is the
  nearest vertex itself; otherwise the new configuration is the nearest vertex moved towards
  the sample by a fraction between \<open>0\<close> and \<open>1\<close> of the way, and its distance from the nearest
  vertex is exactly \<open>min(delta, distance(nearest, sample))\<close>.
\<close>

theorem steering_on_segment:
  assumes "length nearest_q = length random_q" and "0 \<le> delta_dis P"
  shows "(nearest_q = random_q \<longrightarrow> new_state P nearest_q random_q = nearest_q) \<and>
         (nearest_q \<noteq> random_q \<longrightarrow>
            (\<exists>t. 0 \<le> t \<and> t \<le> 1 \<and>
                 new_state P nearest_q random_q =
                   vadd nearest_q (map (\<lambda>x. x * t) (vsub random_q nearest_q))) \<and>
            distance nearest_q (new_state P nearest_q random_q) =
              min (delta_dis P) (distance nearest_q random_q))"
proof (intro conjI impI)
  assume "nearest_q = random_q"
  then show "new_state P nearest_q random_q = nearest_q" by (simp add: new_state_def)
next
  assume ne: "nearest_q \<noteq> random_q"
  let ?d = "distance random_q nearest_q"
  let ?t = "min (delta_dis P) ?d / ?d"
  from ne assms(1) have "?d \<noteq> 0" using distance_eq_0 [of random_q nearest_q] by auto
  then have dpos: "0 < ?d" using distance_nonneg [of random_q nearest_q] by linarith
  with assms(2) have "0 \<le> ?t" "?t \<le> 1" by simp_all
  with new_state_segment [OF ne, of P]
  show "\<exists>t. 0 \<le> t \<and> t \<le> 1 \<and>
          new_state P nearest_q random_q =
            vadd nearest_q (map (\<lambda>x. x * t) (vsub random_q nearest_q))"
    by blast
next
  assume ne: "nearest_q \<noteq> random_q"
  then show "distance nearest_q (new_state P nearest_q random_q) =
             min (delta_dis P) (distance nearest_q random_q)"
    by (rule new_state_distance [OF _ assms])
qed

theorem steering_on_segment_witness:
  "length [0::real] = length [5::real] \<and> 0 \<le> delta_dis planner_A \<and>
   new_state planner_A [0] [5] = [1] \<and>
   distance [0] (new_state planner_A [0] [5]) = min (delta_dis planner_A) (distance [0] [5])"
proof -
  have a: "length [0::real] = length [5::real]" by simp
  have b: "0 \<le> delta_dis planner_A" by simp
  have c: "new_state planner_A [0] [5] = [1]"
    by (simp add: new_state_def vsub_def vadd_def)
  from steering_on_segment [OF a b] a b c show ?thesis by simp
qed

text \<open>The claim as stated fails: a sample equal to the nearest vertex does not make the
  iteration skip. From the initial tree of \<open>planner_A\<close>, the sample \<open>[0]\<close> is the start vertex
  itself, and the iteration appends it as a second vertex.\<close>

theorem steering_skip_counterexample:
  "random_state planner_A (1 / 2, [0]) = vertices (tree (init_state planner_A)) ! 0 \<and>
   nearest_neighbor planner_A (random_state planner_A (1 / 2, [0])) (tree (init_state planner_A)) =
     Inr ([0], 0) \<and>
   iteration planner_A (init_state planner_A) (1 / 2, [0]) =
     Inr \<lparr>tree = \<lparr>vertices = [[0], [0]], edges = [(0, 1)]\<rparr>, cost = [0 \<mapsto> 0, 1 \<mapsto> 0],
          path = None\<rparr>"
  using step_A_duplicate
  by (simp add: random_state_def init_state_def nearest_neighbor_def np_argmin_def add_vertex_def)

subsection \<open>Exhausting the iterations\<close>

text \<open>
  Claim C10. For a planner of positive dimension \<open>generate_path\<close> returns, and its value is the
  recorded path. If no vertex inserted by an iteration passes the goal check, it returns
  \<open>None\<close>. With \<open>max_iter = 1\<close> the tree has at most two vertices; and if moreover the
  distance between start and goal exceeds \<open>delta\<close> by more than the goal tolerance \<open>0.2\<close>
  (for a non-negative \<open>delta\<close> and start, goal and draw of one dimension), it returns \<open>None\<close>.
\<close>

theorem planning_exhaustion:
  assumes dim: "0 < dimension P"
  shows "\<exists>st. generate_path_state P rnd = Inr st \<and> generate_path P rnd = Inr (path st) \<and>
           ((\<forall>i. 0 < i \<and> i < length (vertices (tree st)) \<longrightarrow>
                 \<not> reach_to_goal P (vertices (tree st) ! i)) \<longrightarrow> path st = None) \<and>
           (max_iter P = 1 \<longrightarrow> length (vertices (tree st)) \<le> 2) \<and>
           (max_iter P = 1 \<and> 0 \<le> delta_dis P \<and> length (goal_q P) = length (cur_q P) \<and>
            length (snd (rnd 0)) = length (cur_q P) \<and>
            delta_dis P + 0.2 < distance (cur_q P) (goal_q P) \<longrightarrow> path st = None)"
proof -
  from generate_path_state_cases [of P rnd] dim obtain st
    where r: "generate_path_state P rnd = Inr st" and inv: "tree_inv P st"
      and len: "length (vertices (tree st)) \<le> 1 + nat (max_iter P)"
    by auto
  have gp: "generate_path P rnd = Inr (path st)"
    by (simp add: generate_path_def r)
  have a: "(\<forall>i. 0 < i \<and> i < length (vertices (tree st)) \<longrightarrow>
               \<not> reach_to_goal P (vertices (tree st) ! i)) \<longrightarrow> path st = None"
  proof (intro impI, rule ccontr)
    assume no: "\<forall>i. 0 < i \<and> i < length (vertices (tree st)) \<longrightarrow>
                  \<not> reach_to_goal P (vertices (tree st) ! i)"
      and "path st \<noteq> None"
    then obtain pth where "path st = Some pth" by auto
    with inv obtain i where "0 < i" "i < length (vertices (tree st))"
      "reach_to_goal P (vertices (tree st) ! i)"
      by (auto simp: tree_inv_def path_inv_def)
    with no show False by blast
  qed
  have b: "max_iter P = 1 \<longrightarrow> length (vertices (tree st)) \<le> 2"
    using len by auto
  have c: "max_iter P = 1 \<and> 0 \<le> delta_dis P \<and> length (goal_q P) = length (cur_q P) \<and>
           length (snd (rnd 0)) = length (cur_q P) \<and>
           delta_dis P + 0.2 < distance (cur_q P) (goal_q P) \<longrightarrow> path st = None"
  proof (intro impI, elim conjE)
    assume m: "max_iter P = 1" and d: "0 \<le> delta_dis P"
      and lg: "length (goal_q P) = length (cur_q P)"
      and ls: "length (snd (rnd 0)) = length (cur_q P)"
      and far: "delta_dis P + 0.2 < distance (cur_q P) (goal_q P)"
    let ?rq = "random_state P (rnd 0)"
    let ?new = "new_state P (cur_q P) ?rq"
    have it: "iteration P (init_state P) (rnd 0) = Inr st"
      using r m by (cases "iteration P (init_state P) (rnd 0)")
        (simp_all add: generate_path_state_def)
    have lr: "length (cur_q P) = length ?rq"
      using lg ls by (simp add: random_state_def)
    have near: "distance (cur_q P) ?new \<le> delta_dis P"
    proof (cases "cur_q P = ?rq")
      case True
      then have "?new = cur_q P" by (simp add: new_state_def)
      with d show ?thesis by simp
    next
      case False
      from new_state_distance [OF False lr d] show ?thesis by simp
    qed
    have ln: "length ?new = length (cur_q P)" by (rule length_new_state [OF lr])
    have "distance (cur_q P) (goal_q P) \<le> distance (cur_q P) ?new + distance ?new (goal_q P)"
      using ln lg by (intro distance_triangle) simp_all
    with near far have nr: "\<not> reach_to_goal P ?new"
      by (simp add: reach_to_goal_def)
    have vs0: "vertices (tree (init_state P)) = [cur_q P]"
      by (simp add: init_state_def)
    from iteration_step [OF init_inv, of P "rnd 0"] it
    have "st = init_state P \<or>
          (\<exists>nq ni. nearest_neighbor P ?rq (tree (init_state P)) = Inr (nq, ni) \<and>
             (if reach_to_goal P (new_state P nq ?rq) then path st \<noteq> None
              else path st = path (init_state P)))"
      by auto
    then show "path st = None"
    proof (elim disjE exE conjE)
      assume "st = init_state P"
      then show ?thesis by (simp add: init_state_def)
    next
      fix nq ni
      assume nn: "nearest_neighbor P ?rq (tree (init_state P)) = Inr (nq, ni)"
        and p: "if reach_to_goal P (new_state P nq ?rq) then path st \<noteq> None
                else path st = path (init_state P)"
      from nearest_neighbor_ok [of "tree (init_state P)" P ?rq] nn
      have "nq = cur_q P" by (auto simp: vs0)
      with p nr show ?thesis by (simp add: init_state_def)
    qed
  qed
  from r gp a b c show ?thesis by blast
qed

theorem planning_exhaustion_witness:
  "0 < dimension (planner_A\<lparr>delta_dis := 1 / 100, goal_q := [100]\<rparr>) \<and>
   max_iter (planner_A\<lparr>delta_dis := 1 / 100, goal_q := [100]\<rparr>) = 1 \<and>
   delta_dis (planner_A\<lparr>delta_dis := 1 / 100, goal_q := [100]\<rparr>) + 0.2
     < distance (cur_q (planner_A\<lparr>delta_dis := 1 / 100, goal_q := [100]\<rparr>))
                (goal_q (planner_A\<lparr>delta_dis := 1 / 100, goal_q := [100]\<rparr>)) \<and>
   generate_path (planner_A\<lparr>delta_dis := 1 / 100, goal_q := [100]\<rparr>) (\<lambda>k. (0, [0])) = Inr None"
proof -
  let ?P = "planner_A\<lparr>delta_dis := 1 / 100, goal_q := [100]\<rparr>"
  have d: "0 < dimension ?P" by simp
  have h: "max_iter ?P = 1 \<and> 0 \<le> delta_dis ?P \<and> length (goal_q ?P) = length (cur_q ?P) \<and>
           length (snd (0::real, [0::real])) = length (cur_q ?P) \<and>
           delta_dis ?P + 0.2 < distance (cur_q ?P) (goal_q ?P)"
    by simp
  from planning_exhaustion [OF d, of "\<lambda>k. (0, [0])"] h
  have "generate_path ?P (\<lambda>k. (0, [0])) = Inr None" by auto
  with d h show ?thesis by blast
qed

subsection \<open>The start configuration\<close>

text \<open>
  Claim C5. After a successful \<open>setup_start_goal_joint\<close> (the start was passed as a plain
  sequence or as an array; a setup whose goal is a plain sequence never succeeds),
  \<open>generate_path\<close> returns, vertex \<open>0\<close> of its tree is the supplied start configuration, and a
  recorded path begins with the start configuration, ends with the goal configuration, and
  has before the goal a tree vertex that passes the goal check. Extracting the path from the
  final tree gives the start, then the vertices on the way from the root to the newest vertex
  in that order (the reverse of the order in which the parent links are followed), then the
  goal.
\<close>

theorem start_is_first:
  assumes "setup_start_goal_joint P0 s g arm env = Inr P"
  shows "\<exists>xs ys st. (s = PyList xs \<or> s = NdArray xs) \<and> g = NdArray ys \<and>
           cur_q P = xs \<and> goal_q P = ys \<and>
           generate_path_state P rnd = Inr st \<and> vertices (tree st) ! 0 = xs \<and>
           (\<forall>pth. path st = Some pth \<longrightarrow>
              hd pth = xs \<and> last pth = ys \<and>
              set (butlast pth) \<subseteq> set (vertices (tree st)) \<and>
              reach_to_goal P (last (butlast pth))) \<and>
           (edges (tree st) \<noteq> [] \<longrightarrow>
              (\<exists>pth k. find_path P (tree st) = Inr pth \<and>
                 ancestor (tree st) k (length (vertices (tree st)) - 1) = Some 0 \<and>
                 pth = xs # rev (map ((!) (vertices (tree st)))
                                 (walk (tree st) k (length (vertices (tree st)) - 1))) @ [ys]))"
proof -
  from setup_success [OF assms] obtain xs ys
    where s: "s = PyList xs \<or> s = NdArray xs" and g: "g = NdArray ys"
      and nz: "\<not> list_all (\<lambda>x. x \<noteq> 0) xs"
      and P: "P = P0\<lparr>cur_q := xs, goal_q := ys, dimension := length xs,
                      q_limits_lower := limits_lower env arm,
                      q_limits_upper := limits_upper env arm,
                      collision_free := free_query env\<rparr>"
    by blast
  from nz have "xs \<noteq> []" by auto
  with P have dim: "0 < dimension P" and cq: "cur_q P = xs" and gq: "goal_q P = ys"
    by simp_all
  from generate_path_state_cases [of P rnd] dim obtain st
    where r: "generate_path_state P rnd = Inr st" and inv: "tree_inv P st"
    by auto
  from inv cq have v0: "vertices (tree st) ! 0 = xs" by (simp add: tree_inv_def)
  have pa: "\<forall>pth. path st = Some pth \<longrightarrow>
              hd pth = xs \<and> last pth = ys \<and>
              set (butlast pth) \<subseteq> set (vertices (tree st)) \<and>
              reach_to_goal P (last (butlast pth))"
    using inv cq gq by (auto simp: tree_inv_def path_inv_def)
  have fp: "edges (tree st) \<noteq> [] \<longrightarrow>
              (\<exists>pth k. find_path P (tree st) = Inr pth \<and>
                 ancestor (tree st) k (length (vertices (tree st)) - 1) = Some 0 \<and>
                 pth = xs # rev (map ((!) (vertices (tree st)))
                                 (walk (tree st) k (length (vertices (tree st)) - 1))) @ [ys])"
  proof
    assume "edges (tree st) \<noteq> []"
    from find_path_ok [OF inv this] show
      "\<exists>pth k. find_path P (tree st) = Inr pth \<and>
                 ancestor (tree st) k (length (vertices (tree st)) - 1) = Some 0 \<and>
                 pth = xs # rev (map ((!) (vertices (tree st)))
                                 (walk (tree st) k (length (vertices (tree st)) - 1))) @ [ys]"
      unfolding cq gq by blast
  qed
  from s g cq gq r v0 pa fp show ?thesis by blast
qed

theorem start_is_first_witness:
  "setup_start_goal_joint planner_A (PyList [0]) (NdArray [1]) None env_free = Inr planner_A \<and>
   generate_path_state planner_A (\<lambda>k. (0, [0])) =
     Inr \<lparr>tree = \<lparr>vertices = [[0], [1]], edges = [(0, 1)]\<rparr>, cost = [0 \<mapsto> 0, 1 \<mapsto> 1],
          path = Some [[0], [1], [1]]\<rparr> \<and>
   (\<exists>xs ys st. (PyList [0] = PyList xs \<or> PyList [0] = NdArray xs) \<and>
      cur_q planner_A = xs \<and> goal_q planner_A = ys \<and>
      generate_path_state planner_A (\<lambda>k. (0, [0])) = Inr st \<and> vertices (tree st) ! 0 = xs \<and>
      (\<forall>pth. path st = Some pth \<longrightarrow> hd pth = xs \<and> last pth = ys))"
proof -
  have h: "setup_start_goal_joint planner_A (PyList [0]) (NdArray [1]) None env_free =
           Inr planner_A"
    by (simp add: setup_start_goal_joint_def is_ndarray_def np_array_def check_q_data_def
        np_all_def truthy_def py_len_def check_init_collision_def env_free_def planner_A_def)
  from start_is_first [OF h, of "\<lambda>k. (0, [0])"] h run_A show ?thesis by blast
qed

subsection \<open>A start in collision\<close>


subsection \<open>Checking the start and goal data\<close>

text \<open>
  Claim C4 does not hold of the code. \<open>_check_q_data\<close> tests \<open>current_q.all()\<close>, the truth of
  the elements of the start array: a start all of whose joint values are non-zero is
  rejected with \<open>NotFoundError\<close>, although both configurations are supplied and well formed.
\<close>

theorem check_q_data_rejects_nonzero_start:
  "check_q_data (NdArray [1, 1]) (NdArray [2, 2]) = Inl NotFoundError \<and>
   setup_start_goal_joint planner_A (NdArray [1, 1]) (NdArray [2, 2]) None env_free =
     Inl NotFoundError"
  by (simp add: setup_start_goal_joint_def is_ndarray_def check_q_data_def np_all_def truthy_def)

subsection \<open>Recorded costs and path lengths\<close>

text \<open>
  Claim C2, amended. In the state after any number of iterations of \<open>generate_path\<close>, the
  recorded cost of vertex \<open>0\<close> is \<open>0\<close>; the recorded cost of every other vertex is at least
  the recorded cost of its parent plus the distance between the two; and the recorded cost
  of a vertex is at least the length of the way from the root to it along the current parent
  links. Equality holds where an iteration has written: after the next iteration, every
  vertex whose parent link or cost differs from what it was before that iteration (the
  inserted vertex and the vertices re-parented by \<open>rewire\<close>) has as its cost exactly the
  cost of its parent plus the distance between the two. The costs of the descendants of a
  re-parented vertex are not refreshed.
\<close>

theorem cost_bounds_path_length:
  assumes "run_iters P rnd [0..<k] (init_state P) = Inr st"
  shows "cost st 0 = Some 0 \<and>
     (\<forall>v p. parent (tree st) v = Some p \<longrightarrow>
        (\<exists>c cp. cost st v = Some c \<and> cost st p = Some cp \<and>
           cp + distance (vertices (tree st) ! p) (vertices (tree st) ! v) \<le> c)) \<and>
     (\<forall>v n. ancestor (tree st) n v = Some 0 \<longrightarrow>
        (\<exists>c. cost st v = Some c \<and> path_length (tree st) n v \<le> c)) \<and>
     (\<forall>st' v p. iteration P st (rnd k) = Inr st' \<and> parent (tree st') v = Some p \<and>
          (parent (tree st) v \<noteq> Some p \<or> cost st' v \<noteq> cost st v) \<longrightarrow>
        (\<exists>c cp. cost st' v = Some c \<and> cost st' p = Some cp \<and>
           c = cp + distance (vertices (tree st') ! p) (vertices (tree st') ! v)))"
proof -
  from run_iters_inv [OF init_inv, of P rnd "[0..<k]"] assms
  have inv: "tree_inv P st" by auto
  then have sh: "shape (tree st)" and ci: "cost_inv st" by (simp_all add: tree_inv_def)
  have a: "cost st 0 = Some 0" using ci by (simp add: cost_inv_def)
  have b: "\<forall>v p. parent (tree st) v = Some p \<longrightarrow>
        (\<exists>c cp. cost st v = Some c \<and> cost st p = Some cp \<and>
           cp + distance (vertices (tree st) ! p) (vertices (tree st) ! v) \<le> c)"
  proof (intro allI impI)
    fix v p assume pa: "parent (tree st) v = Some p"
    from parent_SomeD [OF sh pa] have v: "v < length (vertices (tree st))"
      and p: "p < length (vertices (tree st))" by simp_all
    from cost_Some [OF ci v] cost_Some [OF ci p] parent_cost_le [OF sh ci pa]
    show "\<exists>c cp. cost st v = Some c \<and> cost st p = Some cp \<and>
           cp + distance (vertices (tree st) ! p) (vertices (tree st) ! v) \<le> c"
      by blast
  qed
  have c: "\<forall>v n. ancestor (tree st) n v = Some 0 \<longrightarrow>
        (\<exists>c. cost st v = Some c \<and> path_length (tree st) n v \<le> c)"
  proof (intro allI impI)
    fix v n assume an: "ancestor (tree st) n v = Some 0"
    have v: "v < length (vertices (tree st))"
    proof (cases n)
      case 0
      with an have "v = 0" by simp
      with shape_len [OF sh] show ?thesis by simp
    next
      case (Suc m)
      with an obtain p where "parent (tree st) v = Some p" by (auto split: option.splits)
      from parent_SomeD [OF sh this] show ?thesis by simp
    qed
    from path_length_le [OF sh ci an] cst_0 [OF ci]
    have "path_length (tree st) n v \<le> cst st v" by simp
    with cost_Some [OF ci v] show "\<exists>c. cost st v = Some c \<and> path_length (tree st) n v \<le> c"
      by blast
  qed
  have d: "\<forall>st' v p. iteration P st (rnd k) = Inr st' \<and> parent (tree st') v = Some p \<and>
          (parent (tree st) v \<noteq> Some p \<or> cost st' v \<noteq> cost st v) \<longrightarrow>
        (\<exists>c cp. cost st' v = Some c \<and> cost st' p = Some cp \<and>
           c = cp + distance (vertices (tree st') ! p) (vertices (tree st') ! v))"
  proof (intro allI impI, elim conjE)
    fix st' v p
    assume it: "iteration P st (rnd k) = Inr st'" and pa: "parent (tree st') v = Some p"
      and ch: "parent (tree st) v \<noteq> Some p \<or> cost st' v \<noteq> cost st v"
    from iteration_inv [OF inv, of "rnd k"] it have inv': "tree_inv P st'" by auto
    then have sh': "shape (tree st')" and ci': "cost_inv st'" by (simp_all add: tree_inv_def)
    from parent_SomeD [OF sh' pa] have v: "v < length (vertices (tree st'))"
      and p: "p < length (vertices (tree st'))" by simp_all
    from iteration_links [OF inv it, of v] pa ch
    have "cst st' v = cst st' p + distance (vertices (tree st') ! p) (vertices (tree st') ! v)"
      by auto
    with cost_Some [OF ci' v] cost_Some [OF ci' p]
    show "\<exists>c cp. cost st' v = Some c \<and> cost st' p = Some cp \<and>
           c = cp + distance (vertices (tree st') ! p) (vertices (tree st') ! v)"
      by blast
  qed
  from a b c d show ?thesis by blast
qed

theorem cost_bounds_path_length_witness:
  "run_iters planner_B draws_B [0..<3] (init_state planner_B) = Inr state_B3 \<and>
   cost state_B3 0 = Some 0 \<and>
   parent (tree state_B3) 3 = Some 2 \<and>
   (\<exists>c cp. cost state_B3 3 = Some c \<and> cost state_B3 2 = Some cp \<and>
      cp + distance (vertices (tree state_B3) ! 2) (vertices (tree state_B3) ! 3) \<le> c) \<and>
   ancestor (tree state_B3) 3 3 = Some 0 \<and>
   (\<exists>c. cost state_B3 3 = Some c \<and> path_length (tree state_B3) 3 3 \<le> c) \<and>
   iteration planner_B state_B3 (draws_B 3) = Inr state_B4 \<and>
   parent (tree state_B3) 2 = Some 1 \<and>
   parent (tree state_B4) 2 = Some 4 \<and>
   (\<exists>c cp. cost state_B4 2 = Some c \<and> cost state_B4 4 = Some cp \<and>
      c = cp + distance (vertices (tree state_B4) ! 4) (vertices (tree state_B4) ! 2))"
proof -
  note T = cost_bounds_path_length [OF run_state_B3]
  from T have a: "cost state_B3 0 = Some 0" by blast
  from T state_B3_simps(5)
  have b: "\<exists>c cp. cost state_B3 3 = Some c \<and> cost state_B3 2 = Some cp \<and>
      cp + distance (vertices (tree state_B3) ! 2) (vertices (tree state_B3) ! 3) \<le> c"
    by blast
  from T state_B3_simps(6)
  have c: "\<exists>c. cost state_B3 3 = Some c \<and> path_length (tree state_B3) 3 3 \<le> c"
    by blast
  have ne: "parent (tree state_B3) 2 \<noteq> Some 4" by (simp add: state_B3_simps)
  from T have "iteration planner_B state_B3 (draws_B 3) = Inr state_B4 \<and>
      parent (tree state_B4) 2 = Some 4 \<and>
      (parent (tree state_B3) 2 \<noteq> Some 4 \<or> cost state_B4 2 \<noteq> cost state_B3 2) \<longrightarrow>
    (\<exists>c cp. cost state_B4 2 = Some c \<and> cost state_B4 4 = Some cp \<and>
      c = cp + distance (vertices (tree state_B4) ! 4) (vertices (tree state_B4) ! 2))"
    by blast
  with step_state_B4 state_B4_simps(3) ne
  have d: "\<exists>c cp. cost state_B4 2 = Some c \<and> cost state_B4 4 = Some cp \<and>
      c = cp + distance (vertices (tree state_B4) ! 4) (vertices (tree state_B4) ! 2)"
    by blast
  from a b c d run_state_B3 step_state_B4 state_B3_simps(4,5,6) state_B4_simps(3)
  show ?thesis by blast
qed

text \<open>
  The claim as stated fails: \<open>rewire\<close> lowers the cost of the vertex it re-parents and leaves
  the costs of the descendants of that vertex as they were. \<open>generate_path\<close> on \<open>planner_B\<close>
  ends in \<open>state_B4\<close>: the fourth iteration has given vertex \<open>2\<close> the parent \<open>4\<close> and the cost
  \<open>3 / 5\<close>; vertex \<open>3\<close>, a child of vertex \<open>2\<close> at distance \<open>1 / 10\<close>, keeps the cost \<open>9 / 5\<close>,
  while the way from the root to it along the parent links has the length \<open>7 / 10\<close>.
\<close>

theorem cost_path_length_counterexample:
  "generate_path_state planner_B draws_B = Inr state_B4 \<and>
   parent (tree state_B4) 3 = Some 2 \<and>
   cost state_B4 3 = Some (9 / 5) \<and>
   cost state_B4 2 = Some (3 / 5) \<and>
   distance (vertices (tree state_B4) ! 2) (vertices (tree state_B4) ! 3) = 1 / 10 \<and>
   ancestor (tree state_B4) 3 3 = Some 0 \<and>
   path_length (tree state_B4) 3 3 = 7 / 10"
proof -
  have "nat (max_iter planner_B) = 4" by simp
  then have g: "generate_path_state planner_B draws_B = Inr state_B4"
    unfolding generate_path_state_def by (simp only: run_state_B4)
  from g state_B4_simps(1,5,6,7,8,9) show ?thesis by blast
qed

end
